theory Spec2Isabelle
  imports Complex_Main
begin

section \<open>The world a request handler runs in\<close>

text \<open>
  A Go \<^verbatim>\<open>http.Handler\<close> is an effectful procedure \<^verbatim>\<open>ServeHTTP(w, r)\<close>. Its effects are
  made explicit: a handler maps the response writer, the request and the state of the
  process to an outcome (normal return, or a panic carrying its value) and the new state.
\<close>

type_synonym addr = nat

text \<open>
  The dynamic type of an \<^verbatim>\<open>http.ResponseWriter\<close> value. \<open>Server\<close> is the writer the HTTP
  server hands to the outermost handler; \<open>Info a inner\<close> is a pointer
  \<^verbatim>\<open>*ResponseWriterWithInfo\<close> with address \<open>a\<close>, whose embedded \<^verbatim>\<open>ResponseWriter\<close> field
  (assigned once, at construction, and never again) is \<open>inner\<close>; \<open>Delegator inner\<close> is any
  other wrapper type, such as the one the promhttp instrumentation passes on.
\<close>

datatype writer = Server | Info addr writer | Delegator writer

text \<open>The mutable fields of \<^verbatim>\<open>ResponseWriterWithInfo\<close>; \<^verbatim>\<open>nil\<close> error is \<open>None\<close>.\<close>

record ResponseWriterWithInfo =
  statusCode :: int
  responseError :: "string option"

text \<open>What the server's own writer has put on the wire for the current request.\<close>

record response =
  status_sent :: "int option"
  headers :: "(string \<times> string) list"
  body :: string

datatype field_value = FStr string | FInt int | FDur nat

datatype level = InfoLevel | ErrorLevel

datatype log_entry =
    Println string
  | LogLine level string "(string \<times> field_value) list" "string option"

text \<open>
  Modelled from the spec: the Token Bucket State of section 3 (capacity, refill rate,
  token count, last-refill time), standing for \<^verbatim>\<open>rate.Limiter\<close> of golang.org/x/time/rate,
  which is not under src/. A \<^verbatim>\<open>rate.Limit\<close> as \<^verbatim>\<open>rate.Every\<close> produces it is either
  infinite or one token per the given (positive) number of nanoseconds.
\<close>

datatype Limit = Infinite | OnePer nat

record Limiter =
  limit :: Limit
  burst :: int
  tokens :: rat
  lastTime :: nat

record world =
  heap :: "ResponseWriterWithInfo list"
  resp :: response
  logs :: "log_entry list"
  now :: nat
  limiters :: "Limiter list"
  metricsRegisterOnce :: bool
  registry :: "string list"
  observations :: "(string \<times> field_value list) list"

record request =
  Method :: string
  RemoteAddr :: string
  URL :: string
  Proto :: string
  ContentLength :: int

datatype outcome = Returned | Panicked string

type_synonym handler = "writer \<Rightarrow> request \<Rightarrow> world \<Rightarrow> outcome \<times> world"

type_synonym Middleware = "handler \<Rightarrow> handler"

text \<open>
  Sequencing of Go statements: the continuation runs only when the first statement
  returned; a panic skips it and unwinds with the state reached so far.
\<close>

definition and_then :: "outcome \<times> world \<Rightarrow> (world \<Rightarrow> outcome \<times> world) \<Rightarrow> outcome \<times> world" where
  "and_then res k = (case res of (Returned, s) \<Rightarrow> k s | (Panicked v, s) \<Rightarrow> (Panicked v, s))"

section \<open>AddMiddlewares\<close>

text \<open>
  \<^verbatim>\<open>for _, middleware := range middlewares { h = middleware(h) }; return h\<close>
\<close>

fun AddMiddlewares :: "handler \<Rightarrow> Middleware list \<Rightarrow> handler" where
  "AddMiddlewares h [] = h"
| "AddMiddlewares h (middleware # middlewares) = AddMiddlewares (middleware h) middlewares"

text \<open>The standard logger's \<^verbatim>\<open>Println\<close>, appending one line to the log.\<close>

definition println :: "string \<Rightarrow> world \<Rightarrow> world" where
  "println s st = st\<lparr>logs := logs st @ [Println s]\<rparr>"

text \<open>
  \<^verbatim>\<open>createMiddleware\<close> of \<^verbatim>\<open>Test_Order\<close>: log, call the next handler, log again.
\<close>

definition createMiddleware :: "string \<Rightarrow> Middleware" where
  "createMiddleware logString h =
     (\<lambda>rw r st. and_then (h rw r (println logString st))
                  (\<lambda>st'. (Returned, println logString st')))"

text \<open>The terminal handler of \<^verbatim>\<open>Test_Order\<close>.\<close>

definition the_handler :: handler where
  "the_handler = (\<lambda>_ _ st. (Returned, println ''the handler'' st))"

fun printlns :: "string list \<Rightarrow> world \<Rightarrow> world" where
  "printlns [] st = st"
| "printlns (s # ss) st = printlns ss (println s st)"

section \<open>Response writers\<close>

text \<open>
  The server's own writer (net/http): \<^verbatim>\<open>WriteHeader\<close> panics on a status code outside
  100..999, sends the status line on the first call and ignores later calls; \<^verbatim>\<open>Write\<close>
  sends status 200 first when no status was sent.
\<close>

definition server_WriteHeader :: "int \<Rightarrow> world \<Rightarrow> outcome \<times> world" where
  "server_WriteHeader code st =
     (if code < 100 \<or> 999 < code then (Panicked ''invalid WriteHeader code'', st)
      else (case status_sent (resp st) of
              None \<Rightarrow> (Returned, st\<lparr>resp := (resp st)\<lparr>status_sent := Some code\<rparr>\<rparr>)
            | Some _ \<Rightarrow> (Returned, st)))"

definition server_Write :: "string \<Rightarrow> world \<Rightarrow> outcome \<times> world" where
  "server_Write b st =
     (let sent = (case status_sent (resp st) of None \<Rightarrow> Some 200 | Some c \<Rightarrow> Some c)
      in (Returned, st\<lparr>resp := (resp st)\<lparr>status_sent := sent, body := body (resp st) @ b\<rparr>\<rparr>))"

definition set_header :: "string \<Rightarrow> string \<Rightarrow> world \<Rightarrow> world" where
  "set_header k v st =
     st\<lparr>resp := (resp st)\<lparr>headers := (k, v) # filter (\<lambda>kv. fst kv \<noteq> k) (headers (resp st))\<rparr>\<rparr>"

text \<open>
  \<^verbatim>\<open>func (r *ResponseWriterWithInfo) WriteHeader(code int)\<close>:
  \<^verbatim>\<open>r.statusCode = code; r.ResponseWriter.WriteHeader(code)\<close>, as the \<open>Info\<close> case of
  the dynamic dispatch of \<^verbatim>\<open>w.WriteHeader(code)\<close>.
\<close>

fun WriteHeader :: "writer \<Rightarrow> int \<Rightarrow> world \<Rightarrow> outcome \<times> world" where
  "WriteHeader Server code st = server_WriteHeader code st"
| "WriteHeader (Info a inner) code st =
     WriteHeader inner code (st\<lparr>heap := (heap st)[a := (heap st ! a)\<lparr>statusCode := code\<rparr>]\<rparr>)"
| "WriteHeader (Delegator inner) code st = WriteHeader inner code st"

text \<open>\<^verbatim>\<open>Write\<close> is promoted from the embedded writer.\<close>

fun Write :: "writer \<Rightarrow> string \<Rightarrow> world \<Rightarrow> outcome \<times> world" where
  "Write Server b st = server_Write b st"
| "Write (Info a inner) b st = Write inner b st"
| "Write (Delegator inner) b st = Write inner b st"

text \<open>\<^verbatim>\<open>func (r *ResponseWriterWithInfo) WriteError(err error)\<close>: \<^verbatim>\<open>r.responseError = err\<close>.\<close>

definition WriteError :: "addr \<Rightarrow> string \<Rightarrow> world \<Rightarrow> world" where
  "WriteError a err st = st\<lparr>heap := (heap st)[a := (heap st ! a)\<lparr>responseError := Some err\<rparr>]\<rparr>"

text \<open>
  \<^verbatim>\<open>NewResponseWriter\<close>: the type assertion \<^verbatim>\<open>r.(*ResponseWriterWithInfo)\<close> succeeds
  exactly on \<open>Info\<close>, and the pointer is returned as it is; otherwise a new record is
  allocated, wrapping \<open>r\<close> with status \<^verbatim>\<open>http.StatusOK\<close>. The pointer is returned as its
  address and embedded writer.
\<close>

definition NewResponseWriter :: "writer \<Rightarrow> world \<Rightarrow> (addr \<times> writer) \<times> world" where
  "NewResponseWriter r st =
     (case r of
        Info a inner \<Rightarrow> ((a, inner), st)
      | _ \<Rightarrow> ((length (heap st), r),
              st\<lparr>heap := heap st @ [\<lparr>statusCode = 200, responseError = None\<rparr>]\<rparr>))"

section \<open>Logger and PanicRecovery\<close>

text \<open>
  The logger argument of both constructors names the sink of the log lines; the model
  has one log, so the argument is left out. The \<^verbatim>\<open>elapsed\<close> field is kept as the
  duration in nanoseconds, unformatted.
\<close>

definition log_processed :: "request \<Rightarrow> addr \<Rightarrow> nat \<Rightarrow> world \<Rightarrow> world" where
  "log_processed r a startTime st =
     (let fs =
            [(''method'', FStr (Method r)),
             (''remote_address'', FStr (RemoteAddr r)),
             (''path'', FStr (URL r)),
             (''protocol'', FStr (Proto r)),
             (''content_length'', FInt (ContentLength r)),
             (''status'', FInt (statusCode (heap st ! a))),
             (''elapsed'', FDur (now st - startTime))]
      in (case responseError (heap st ! a) of
            Some err \<Rightarrow>
              st\<lparr>logs := logs st @ [LogLine ErrorLevel ''request processed'' fs (Some err)]\<rparr>
          | None \<Rightarrow>
              st\<lparr>logs := logs st @ [LogLine InfoLevel ''request processed'' fs None]\<rparr>))"

definition Logger :: Middleware where
  "Logger h = (\<lambda>w r st.
     (case NewResponseWriter w st of
        ((a, inner), st1) \<Rightarrow>
          let startTime = now st1 in
          and_then (h (Info a inner) r st1)
            (\<lambda>st2. (Returned, log_processed r a startTime st2))))"

text \<open>The \<^verbatim>\<open>status\<close> field of the line logged last, if any.\<close>

definition reported_status :: "world \<Rightarrow> field_value option" where
  "reported_status st =
     (case rev (logs st) of
        LogLine lvl m fs err # _ \<Rightarrow> map_of fs ''status''
      | _ \<Rightarrow> None)"

text \<open>
  \<^verbatim>\<open>PanicRecovery\<close>: the deferred function runs on every exit of the handler;
  \<^verbatim>\<open>recover()\<close> yields \<^verbatim>\<open>nil\<close> after a normal return and the panic value (taken to be
  non-nil, as the language guarantees since Go 1.21) after a panic, which it stops.
\<close>

definition recover :: "outcome \<Rightarrow> string option" where
  "recover out = (case out of Returned \<Rightarrow> None | Panicked v \<Rightarrow> Some v)"

definition PanicRecovery :: Middleware where
  "PanicRecovery h = (\<lambda>w r st.
     (case h w r st of
        (out, st') \<Rightarrow>
          (case recover out of
             Some v \<Rightarrow>
               (Returned, st'\<lparr>logs := logs st' @
                  [LogLine ErrorLevel (''panic recovered: '' @ v) [] None]\<rparr>)
           | None \<Rightarrow> (Returned, st'))))"

section \<open>Terminal handlers as scripts\<close>

text \<open>
  What a terminal handler does to the writer it is given, as the sequence of its calls:
  \<^verbatim>\<open>w.WriteHeader(code)\<close>, \<^verbatim>\<open>w.Write(b)\<close>, \<^verbatim>\<open>WriteError(err)\<close> when \<^verbatim>\<open>w\<close> is a
  \<^verbatim>\<open>*ResponseWriterWithInfo\<close>, and \<^verbatim>\<open>panic(v)\<close>.
\<close>

datatype action = CallWriteHeader int | CallWrite string | CallWriteError string | CallPanic string

fun do_action :: "action \<Rightarrow> writer \<Rightarrow> world \<Rightarrow> outcome \<times> world" where
  "do_action (CallWriteHeader code) w st = WriteHeader w code st"
| "do_action (CallWrite b) w st = Write w b st"
| "do_action (CallWriteError err) w st =
     (case w of Info a inner \<Rightarrow> (Returned, WriteError a err st) | _ \<Rightarrow> (Returned, st))"
| "do_action (CallPanic v) w st = (Panicked v, st)"

fun run_actions :: "action list \<Rightarrow> handler" where
  "run_actions [] w r st = (Returned, st)"
| "run_actions (act # acts) w r st = and_then (do_action act w st) (run_actions acts w r)"

text \<open>The status a script leaves recorded, starting from \<open>code\<close>: its last \<^verbatim>\<open>WriteHeader\<close>.\<close>

fun last_status :: "int \<Rightarrow> action list \<Rightarrow> int" where
  "last_status code [] = code"
| "last_status code (CallWriteHeader c # acts) = last_status c acts"
| "last_status code (_ # acts) = last_status code acts"

fun calls_WriteHeader :: "action list \<Rightarrow> bool" where
  "calls_WriteHeader [] = False"
| "calls_WriteHeader (CallWriteHeader c # acts) = True"
| "calls_WriteHeader (_ # acts) = calls_WriteHeader acts"

fun is_info :: "writer \<Rightarrow> bool" where
  "is_info (Info a inner) = True"
| "is_info _ = False"

text \<open>
  Go pointers never dangle: the address of an \<open>Info\<close> writer is an allocated record.
\<close>

fun valid_writer :: "writer \<Rightarrow> world \<Rightarrow> bool" where
  "valid_writer Server st = True"
| "valid_writer (Info a inner) st = (a < length (heap st))"
| "valid_writer (Delegator inner) st = True"

text \<open>The record \<^verbatim>\<open>NewResponseWriter(w)\<close> yields in state \<open>st\<close>.\<close>

definition wrapper_addr :: "writer \<Rightarrow> world \<Rightarrow> addr" where
  "wrapper_addr w st = fst (fst (NewResponseWriter w st))"

text \<open>A process that has allocated nothing and logged nothing, at time 0.\<close>

definition fresh_response :: response where
  "fresh_response = \<lparr>status_sent = None, headers = [], body = []\<rparr>"

definition fresh_world :: world where
  "fresh_world = \<lparr>heap = [], resp = fresh_response, logs = [], now = 0, limiters = [],
     metricsRegisterOnce = False, registry = [], observations = []\<rparr>"

definition GET :: request where
  "GET = \<lparr>Method = ''GET'', RemoteAddr = ''127.0.0.1:4080'', URL = ''/'',
     Proto = ''HTTP/1.1'', ContentLength = 0\<rparr>"

section \<open>RateLimiter\<close>

text \<open>
  \<^verbatim>\<open>http.Error(w, error, code)\<close> of net/http: plain-text headers, the status, then the
  message and a newline.
\<close>

definition http_Error :: "writer \<Rightarrow> string \<Rightarrow> int \<Rightarrow> world \<Rightarrow> outcome \<times> world" where
  "http_Error w error code st =
     and_then
       (WriteHeader w code
          (set_header ''X-Content-Type-Options'' ''nosniff''
             (set_header ''Content-Type'' ''text/plain; charset=utf-8'' st)))
       (\<lambda>st'. Write w (error @ [CHR 0x0A]) st')"

text \<open>\<^verbatim>\<open>http.StatusTooManyRequests\<close> and its \<^verbatim>\<open>http.StatusText\<close>.\<close>

definition StatusTooManyRequests :: int where
  "StatusTooManyRequests = 429"

definition StatusText_TooManyRequests :: string where
  "StatusText_TooManyRequests = ''Too Many Requests''"

text \<open>
  Modelled from the spec: the token bucket behind \<^verbatim>\<open>rate.Limiter\<close>; the package
  golang.org/x/time/rate that implements \<^verbatim>\<open>rate.Every\<close>, \<^verbatim>\<open>rate.NewLimiter\<close>,
  \<^verbatim>\<open>SetBurst\<close> and \<^verbatim>\<open>Allow\<close> is not under src/. The state is the one of section 3
  (capacity, refill rate, token count, last-refill time) and the decision is the one of
  section 4.3: the tokens accrued since the last refill are elapsed time times rate, capped
  at the burst, and a request is admitted, consuming one token, when a whole token is
  there; a rejected request changes nothing. \<^verbatim>\<open>Every(interval)\<close> is the rate of one token
  per interval (no limit at all for an interval that is not positive);
  \<^verbatim>\<open>NewLimiter(r, b)\<close> is a bucket of capacity \<open>b\<close> that starts full; \<^verbatim>\<open>SetBurst\<close> refills,
  then replaces the capacity. Times are nanoseconds; token counts are exact rationals
  where the package computes in floating point.
\<close>

definition Every :: "int \<Rightarrow> Limit" where
  "Every interval = (if interval \<le> 0 then Infinite else OnePer (nat interval))"

definition NewLimiter :: "Limit \<Rightarrow> int \<Rightarrow> nat \<Rightarrow> Limiter" where
  "NewLimiter r b t = \<lparr>limit = r, burst = b, tokens = of_int b, lastTime = t\<rparr>"

definition advance :: "Limiter \<Rightarrow> nat \<Rightarrow> rat" where
  "advance lm t =
     (case limit lm of
        Infinite \<Rightarrow> of_int (burst lm)
      | OnePer i \<Rightarrow>
          min (of_int (burst lm)) (tokens lm + of_nat (t - lastTime lm) / of_nat i))"

definition SetBurst :: "int \<Rightarrow> nat \<Rightarrow> Limiter \<Rightarrow> Limiter" where
  "SetBurst newBurst t lm = lm\<lparr>lastTime := t, tokens := advance lm t, burst := newBurst\<rparr>"

definition Allow :: "Limiter \<Rightarrow> nat \<Rightarrow> bool \<times> Limiter" where
  "Allow lm t =
     (case limit lm of
        Infinite \<Rightarrow> (True, lm)
      | OnePer i \<Rightarrow>
          (let tk = advance lm t
           in if 1 \<le> tk then (True, lm\<lparr>lastTime := t, tokens := tk - 1\<rparr>)
              else (False, lm)))"

text \<open>
  The handler \<^verbatim>\<open>RateLimiter\<close> returns, for the limiter at index \<open>p\<close> of the process's
  limiters (the pointer its closure captured), reading the clock at the call of
  \<^verbatim>\<open>limiter.Allow()\<close>.
\<close>

definition RateLimiter_stage :: "nat \<Rightarrow> Middleware" where
  "RateLimiter_stage p h = (\<lambda>w r st.
     (case Allow (limiters st ! p) (now st) of
        (ok, lm') \<Rightarrow>
          let st1 = st\<lparr>limiters := (limiters st)[p := lm']\<rparr>
          in if \<not> ok
             then http_Error w StatusText_TooManyRequests StatusTooManyRequests st1
             else h w r st1))"

text \<open>
  \<^verbatim>\<open>RateLimiter(interval, limit, burst)\<close>: \<^verbatim>\<open>limit\<close> is passed to \<^verbatim>\<open>NewLimiter\<close> in the
  position of its bucket size, and \<^verbatim>\<open>SetBurst(burst)\<close> follows at once.
\<close>

definition RateLimiter :: "int \<Rightarrow> int \<Rightarrow> int \<Rightarrow> world \<Rightarrow> Middleware \<times> world" where
  "RateLimiter interval limit_arg burst_arg st =
     (let limiter = SetBurst burst_arg (now st) (NewLimiter (Every interval) limit_arg (now st));
          p = length (limiters st)
      in (RateLimiter_stage p, st\<lparr>limiters := limiters st @ [limiter]\<rparr>))"

text \<open>
  A client's view: one request on a fresh response, and the status it receives (200
  when the handler returned without sending one, none when the handler panicked);
  \<open>n\<close> requests with no delay between them; and waiting.
\<close>

definition status_received :: "outcome \<times> world \<Rightarrow> int option" where
  "status_received res =
     (case res of
        (Returned, st) \<Rightarrow> (case status_sent (resp st) of None \<Rightarrow> Some 200 | Some c \<Rightarrow> Some c)
      | (Panicked v, st) \<Rightarrow> None)"

definition http_Get :: "handler \<Rightarrow> world \<Rightarrow> int option \<times> world" where
  "http_Get h st =
     (let res = h Server GET (st\<lparr>resp := fresh_response\<rparr>) in (status_received res, snd res))"

fun http_Gets :: "nat \<Rightarrow> handler \<Rightarrow> world \<Rightarrow> int option list \<times> world" where
  "http_Gets 0 h st = ([], st)"
| "http_Gets (Suc n) h st =
     (case http_Get h st of (c, st') \<Rightarrow>
        (case http_Gets n h st' of (cs, st'') \<Rightarrow> (c # cs, st'')))"

definition sleep :: "nat \<Rightarrow> world \<Rightarrow> world" where
  "sleep d st = st\<lparr>now := now st + d\<rparr>"

text \<open>The handler of \<^verbatim>\<open>Test_RateLimiter\<close>: \<^verbatim>\<open>func(w http.ResponseWriter, r *http.Request) {}\<close>.\<close>

definition empty_handler :: handler where
  "empty_handler = (\<lambda>w r st. (Returned, st))"

text \<open>
  \<^verbatim>\<open>Test_RateLimiter\<close> for the three-argument constructor: build the stage around the
  empty handler, wait \<open>d0\<close>, issue \<open>n\<close> requests at once, wait \<open>d\<close>, issue one more.
\<close>

definition rate_limit_run ::
    "int \<Rightarrow> int \<Rightarrow> int \<Rightarrow> nat \<Rightarrow> nat \<Rightarrow> nat \<Rightarrow> world \<Rightarrow> int option list \<times> int option" where
  "rate_limit_run interval limit_arg burst_arg d0 n d st =
     (case RateLimiter interval limit_arg burst_arg st of
        (mw, st0) \<Rightarrow>
          let h = AddMiddlewares empty_handler [mw] in
          (case http_Gets n h (sleep d0 st0) of
             (codes, st1) \<Rightarrow> (codes, fst (http_Get h (sleep d st1)))))"

section \<open>Prometheus\<close>

text \<open>
  The four collectors a stage holds: the local variables \<^verbatim>\<open>inFlightGauge\<close>,
  \<^verbatim>\<open>counter\<close>, \<^verbatim>\<open>duration\<close> and \<^verbatim>\<open>responseSize\<close> of one call of \<^verbatim>\<open>Prometheus()\<close>,
  each \<^verbatim>\<open>nil\<close> (\<open>None\<close>) or the collector registered under a name.
\<close>

record collectors =
  inFlightGauge :: "string option"
  counter :: "string option"
  duration :: "string option"
  responseSize :: "string option"

definition nil_collectors :: collectors where
  "nil_collectors = \<lparr>inFlightGauge = None, counter = None, duration = None, responseSize = None\<rparr>"

text \<open>
  The client library (prometheus/client_golang, not under src/), as far as the stage
  uses it. A \<^verbatim>\<open>promauto\<close> constructor registers the new collector with the default
  registry and panics when the name is registered already. Using a collector records an
  observation under its name; using a \<^verbatim>\<open>nil\<close> collector is a nil dereference.
\<close>

definition promauto_New :: "string \<Rightarrow> world \<Rightarrow> outcome \<times> world" where
  "promauto_New name st =
     (if name \<in> set (registry st)
      then (Panicked ''duplicate metrics collector registration attempted'', st)
      else (Returned, st\<lparr>registry := registry st @ [name]\<rparr>))"

definition observe :: "string option \<Rightarrow> field_value list \<Rightarrow> world \<Rightarrow> outcome \<times> world" where
  "observe c labels st =
     (case c of
        None \<Rightarrow> (Panicked ''nil pointer dereference'', st)
      | Some name \<Rightarrow> (Returned, st\<lparr>observations := observations st @ [(name, labels)]\<rparr>))"

text \<open>
  \<^verbatim>\<open>promhttp.InstrumentHandlerResponseSize\<close> and \<^verbatim>\<open>InstrumentHandlerDuration\<close> inspect
  the collector when they wrap a handler (a nil dereference for a \<^verbatim>\<open>nil\<close> one, as is
  \<^verbatim>\<open>duration.MustCurryWith\<close>); the handler they return passes a delegating writer on and
  observes after the next handler returned. \<^verbatim>\<open>InstrumentHandlerInFlight\<close> increments the
  gauge, and decrements it in a deferred call.
\<close>

definition InstrumentHandlerResponseSize :: "string option \<Rightarrow> handler \<Rightarrow> string + handler" where
  "InstrumentHandlerResponseSize obs next_h =
     (case obs of
        None \<Rightarrow> Inl ''nil pointer dereference''
      | Some name \<Rightarrow>
          Inr (\<lambda>w r st. and_then (next_h (Delegator w) r st) (observe obs [])))"

definition InstrumentHandlerInFlight :: "string option \<Rightarrow> handler \<Rightarrow> handler" where
  "InstrumentHandlerInFlight g next_h =
     (\<lambda>w r st.
        (case observe g [FStr ''Inc''] st of
           (Panicked v, st1) \<Rightarrow> (Panicked v, st1)
         | (Returned, st1) \<Rightarrow>
             (case next_h w r st1 of
                (out, st2) \<Rightarrow>
                  (case observe g [FStr ''Dec''] st2 of
                     (Panicked v, st3) \<Rightarrow> (Panicked v, st3)
                   | (Returned, st3) \<Rightarrow> (out, st3)))))"

definition InstrumentHandlerDuration :: "string option \<Rightarrow> string \<Rightarrow> handler \<Rightarrow> string + handler" where
  "InstrumentHandlerDuration obs method next_h =
     (case obs of
        None \<Rightarrow> Inl ''nil pointer dereference''
      | Some name \<Rightarrow>
          Inr (\<lambda>w r st. and_then (next_h (Delegator w) r st) (observe obs [FStr method])))"

text \<open>
  The handler of the stage, for the collectors its closure captured: wrap the next
  handler three times, serve through \<^verbatim>\<open>NewResponseWriter(w)\<close>, count the request under
  the recorded status and the method.
\<close>

definition Prometheus_stage :: "collectors \<Rightarrow> Middleware" where
  "Prometheus_stage c h = (\<lambda>w r st.
     (case InstrumentHandlerResponseSize (responseSize c) h of
        Inl v \<Rightarrow> (Panicked v, st)
      | Inr handler1 \<Rightarrow>
          let handler2 = InstrumentHandlerInFlight (inFlightGauge c) handler1 in
          (case InstrumentHandlerDuration (duration c) (Method r) handler2 of
             Inl v \<Rightarrow> (Panicked v, st)
           | Inr handler3 \<Rightarrow>
               (case NewResponseWriter w st of
                  ((a, inner), st1) \<Rightarrow>
                    and_then (handler3 (Info a inner) r st1)
                      (\<lambda>st2. observe (counter c)
                         [FInt (statusCode (heap st2 ! a)), FStr (Method r)] st2)))))"

text \<open>
  \<^verbatim>\<open>metricsRegisterOnce.Do(f)\<close>: \<open>f\<close> runs only when the flag is not set, and the flag is
  set whether \<open>f\<close> returns or panics. \<open>f\<close> creates the four collectors in turn and
  assigns them to the variables of this call.
\<close>

fun register_all :: "string list \<Rightarrow> world \<Rightarrow> outcome \<times> world" where
  "register_all [] st = (Returned, st)"
| "register_all (name # names) st = and_then (promauto_New name st) (register_all names)"

definition Prometheus :: "world \<Rightarrow> (string + Middleware) \<times> world" where
  "Prometheus st =
     (if metricsRegisterOnce st then (Inr (Prometheus_stage nil_collectors), st)
      else
        (case register_all
                [''in_flight_requests'', ''http_requests_total'',
                 ''request_duration_seconds'', ''response_size_bytes'']
                (st\<lparr>metricsRegisterOnce := True\<rparr>) of
           (Panicked v, st') \<Rightarrow> (Inl v, st')
         | (Returned, st') \<Rightarrow>
             (Inr (Prometheus_stage
                    \<lparr>inFlightGauge = Some ''in_flight_requests'',
                       counter = Some ''http_requests_total'',
                       duration = Some ''request_duration_seconds'',
                       responseSize = Some ''response_size_bytes''\<rparr>), st')))"

text \<open>
  Calling the constructor \<open>n\<close> times; the stages it returned, oldest first, or the panic
  of the first call that panicked.
\<close>

fun Prometheus_times :: "nat \<Rightarrow> world \<Rightarrow> (string + Middleware list) \<times> world" where
  "Prometheus_times 0 st = (Inr [], st)"
| "Prometheus_times (Suc n) st =
     (case Prometheus st of
        (Inl v, st') \<Rightarrow> (Inl v, st')
      | (Inr mw, st') \<Rightarrow>
          (case Prometheus_times n st' of
             (Inl v, st'') \<Rightarrow> (Inl v, st'')
           | (Inr mws, st'') \<Rightarrow> (Inr (mw # mws), st'')))"

text \<open>Serving one request through the \<open>i\<close>-th of the stages returned.\<close>

definition serve_with :: "(string + Middleware list) \<Rightarrow> nat \<Rightarrow> handler \<Rightarrow> world \<Rightarrow> outcome \<times> world" where
  "serve_with stages i h st =
     (case stages of
        Inl v \<Rightarrow> (Panicked v, st)
      | Inr mws \<Rightarrow>
          if i < length mws then (mws ! i) h Server GET st
          else (Panicked ''index out of range'', st))"

section \<open>GracefulShutdown\<close>

text \<open>
  The goroutine started by \<^verbatim>\<open>GracefulShutdown\<close> runs concurrently with the delivery of
  signals and with the server. It is modelled as a state machine: the program counter of
  the goroutine, the buffered channel \<^verbatim>\<open>gracefulStop\<close> (capacity 1), the channel
  \<^verbatim>\<open>idleConnsClosed\<close>, and the sequence of calls it has made. An execution is a schedule:
  a list saying, at each moment, whether the goroutine takes its next step, a signal
  arrives, or the pending \<^verbatim>\<open>server.Shutdown\<close> call returns (with \<^verbatim>\<open>nil\<close> or an error).
\<close>

datatype signal = SIGINT | SIGTERM

datatype event =
    LogInfof string
  | LogErrorf string
  | ShutdownCalled int
  | ShutdownReturned "string option"
  | Closed

datatype pc =
    NotifyTERM
  | NotifyINT
  | AwaitSignal
  | LogDraining
  | CallShutdown
  | InShutdown
  | AfterShutdown "string option"
  | CloseIdle
  | Finished

datatype fate = Alive | Killed signal | Crashed string

text \<open>
  \<open>delivered\<close> (the signals that arrived for the channel) and \<open>received\<close> (the values the
  goroutine read from it) are history kept for the statements; the program does not
  read them.
\<close>

record shutdown_state =
  pc :: pc
  fate :: fate
  subscribed :: "signal list"
  gracefulStop :: "signal list"
  idleConnsClosed :: bool
  trace :: "event list"
  delivered :: "signal list"
  received :: "signal list"

datatype move = Run | Deliver signal | ShutdownReturns "string option"

text \<open>
  The state in which \<^verbatim>\<open>GracefulShutdown\<close> returns \<^verbatim>\<open>idleConnsClosed\<close>: both channels
  made, nothing subscribed yet.
\<close>

definition GracefulShutdown :: shutdown_state where
  "GracefulShutdown = \<lparr>pc = NotifyTERM, fate = Alive, subscribed = [], gracefulStop = [],
     idleConnsClosed = False, trace = [], delivered = [], received = []\<rparr>"

text \<open>
  A method call on the logger. The logger is an interface value; calling a method on
  the \<^verbatim>\<open>nil\<close> interface (\<open>None\<close>) is a nil dereference, which crashes the process.
\<close>

definition Infof :: "string option \<Rightarrow> string \<Rightarrow> shutdown_state \<Rightarrow> shutdown_state" where
  "Infof logger m s =
     (case logger of
        None \<Rightarrow> s\<lparr>fate := Crashed ''nil pointer dereference''\<rparr>
      | Some l \<Rightarrow> s\<lparr>trace := trace s @ [LogInfof m]\<rparr>)"

definition Errorf :: "string option \<Rightarrow> string \<Rightarrow> shutdown_state \<Rightarrow> shutdown_state" where
  "Errorf logger m s =
     (case logger of
        None \<Rightarrow> s\<lparr>fate := Crashed ''nil pointer dereference''\<rparr>
      | Some l \<Rightarrow> s\<lparr>trace := trace s @ [LogErrorf m]\<rparr>)"

text \<open>\<^verbatim>\<open>close(ch)\<close>: closing a closed channel panics.\<close>

definition close_idle :: "shutdown_state \<Rightarrow> shutdown_state" where
  "close_idle s =
     (if idleConnsClosed s then s\<lparr>fate := Crashed ''close of closed channel''\<rparr>
      else s\<lparr>idleConnsClosed := True, trace := trace s @ [Closed]\<rparr>)"

text \<open>
  The arrival of a signal. A signal nobody subscribed to has its default effect and
  ends the process. \<^verbatim>\<open>signal.Notify\<close> never blocks: a signal is put into the channel when
  there is room and dropped otherwise.
\<close>

definition deliver :: "signal \<Rightarrow> shutdown_state \<Rightarrow> shutdown_state" where
  "deliver sig s =
     (if sig \<notin> set (subscribed s) then s\<lparr>fate := Killed sig\<rparr>
      else if length (gracefulStop s) < 1
           then s\<lparr>gracefulStop := gracefulStop s @ [sig], delivered := delivered s @ [sig]\<rparr>
           else s\<lparr>delivered := delivered s @ [sig]\<rparr>)"

text \<open>One step of the goroutine, statement by statement; a blocked statement does nothing.\<close>

definition run :: "string option \<Rightarrow> int \<Rightarrow> shutdown_state \<Rightarrow> shutdown_state" where
  "run logger waitTime s =
     (case pc s of
        NotifyTERM \<Rightarrow> s\<lparr>pc := NotifyINT, subscribed := subscribed s @ [SIGTERM]\<rparr>
      | NotifyINT \<Rightarrow> s\<lparr>pc := AwaitSignal, subscribed := subscribed s @ [SIGINT]\<rparr>
      | AwaitSignal \<Rightarrow>
          (case gracefulStop s of
             [] \<Rightarrow> s
           | sig # rest \<Rightarrow>
               s\<lparr>pc := LogDraining, gracefulStop := rest, received := received s @ [sig]\<rparr>)
      | LogDraining \<Rightarrow>
          (if logger \<noteq> None
           then Infof logger ''shutting down server, draining connections'' (s\<lparr>pc := CallShutdown\<rparr>)
           else s\<lparr>pc := CallShutdown\<rparr>)
      | CallShutdown \<Rightarrow> s\<lparr>pc := InShutdown, trace := trace s @ [ShutdownCalled waitTime]\<rparr>
      | InShutdown \<Rightarrow> s
      | AfterShutdown err \<Rightarrow>
          (case err of
             Some e \<Rightarrow>
               (if logger \<noteq> None
                then Errorf logger (''could not shut down server gracefully: '' @ e)
                       (s\<lparr>pc := CloseIdle\<rparr>)
                else s\<lparr>pc := CloseIdle\<rparr>)
           | None \<Rightarrow> s\<lparr>pc := CloseIdle\<rparr>)
      | CloseIdle \<Rightarrow> close_idle (s\<lparr>pc := Finished\<rparr>)
      | Finished \<Rightarrow> s)"

definition shutdown_returns :: "string option \<Rightarrow> shutdown_state \<Rightarrow> shutdown_state" where
  "shutdown_returns err s =
     (case pc s of
        InShutdown \<Rightarrow> s\<lparr>pc := AfterShutdown err, trace := trace s @ [ShutdownReturned err]\<rparr>
      | _ \<Rightarrow> s)"

text \<open>Nothing moves in a process that has ended.\<close>

definition move :: "string option \<Rightarrow> int \<Rightarrow> move \<Rightarrow> shutdown_state \<Rightarrow> shutdown_state" where
  "move logger waitTime m s =
     (case fate s of
        Alive \<Rightarrow>
          (case m of
             Run \<Rightarrow> run logger waitTime s
           | Deliver sig \<Rightarrow> deliver sig s
           | ShutdownReturns err \<Rightarrow> shutdown_returns err s)
      | _ \<Rightarrow> s)"

fun exec :: "string option \<Rightarrow> int \<Rightarrow> move list \<Rightarrow> shutdown_state \<Rightarrow> shutdown_state" where
  "exec logger waitTime [] s = s"
| "exec logger waitTime (m # ms) s = exec logger waitTime ms (move logger waitTime m s)"

text \<open>
  A schedule that lets the goroutine run to its end from wherever it is once a signal
  is in its channel: six steps of the goroutine, each followed by the return of a
  pending \<^verbatim>\<open>server.Shutdown\<close> with the given result.
\<close>

definition run_to_completion :: "string option \<Rightarrow> move list" where
  "run_to_completion result = concat (replicate 6 [Run, ShutdownReturns result])"

text \<open>Where one such pair of moves takes the goroutine.\<close>

fun next_pc :: "string option \<Rightarrow> pc \<Rightarrow> pc" where
  "next_pc result NotifyTERM = NotifyINT"
| "next_pc result NotifyINT = AwaitSignal"
| "next_pc result AwaitSignal = LogDraining"
| "next_pc result LogDraining = CallShutdown"
| "next_pc result CallShutdown = AfterShutdown result"
| "next_pc result InShutdown = AfterShutdown result"
| "next_pc result (AfterShutdown e) = CloseIdle"
| "next_pc result CloseIdle = Finished"
| "next_pc result Finished = Finished"

text \<open>How often an event occurs in a trace, and what is left of a trace without the log lines.\<close>

fun occurrences :: "event \<Rightarrow> event list \<Rightarrow> nat" where
  "occurrences e [] = 0"
| "occurrences e (x # xs) = (if x = e then Suc (occurrences e xs) else occurrences e xs)"

fun shutdown_calls :: "event list \<Rightarrow> nat" where
  "shutdown_calls [] = 0"
| "shutdown_calls (ShutdownCalled t # xs) = Suc (shutdown_calls xs)"
| "shutdown_calls (_ # xs) = shutdown_calls xs"

fun is_log :: "event \<Rightarrow> bool" where
  "is_log (LogInfof m) = True"
| "is_log (LogErrorf m) = True"
| "is_log _ = False"

fun without_logs :: "event list \<Rightarrow> event list" where
  "without_logs [] = []"
| "without_logs (e # es) = (if is_log e then without_logs es else e # without_logs es)"

text \<open>
  The invariant of the goroutine, for the result \<open>err\<close> of \<^verbatim>\<open>server.Shutdown\<close>: the calls
  made so far are those the program counter has passed, the completion channel is closed
  exactly when the goroutine has finished, the one value read from \<^verbatim>\<open>gracefulStop\<close> is the
  first signal that arrived, and no call has crashed the process.
\<close>

fun is_crashed :: "fate \<Rightarrow> bool" where
  "is_crashed (Crashed m) = True"
| "is_crashed _ = False"

fun has_read :: "pc \<Rightarrow> bool" where
  "has_read NotifyTERM = False"
| "has_read NotifyINT = False"
| "has_read AwaitSignal = False"
| "has_read _ = True"

fun result_is :: "string option \<Rightarrow> pc \<Rightarrow> bool" where
  "result_is err (AfterShutdown e) = (e = err)"
| "result_is err _ = True"

text \<open>
  The calls of a completed shutdown, in program order, for a logger and a result of
  \<^verbatim>\<open>server.Shutdown\<close>: the drain-start line when there is a logger, the call and its
  return, the error line when there is a logger and an error, and the close.
\<close>

definition info_part :: "string option \<Rightarrow> event list" where
  "info_part logger =
     (case logger of None \<Rightarrow> [] | Some l \<Rightarrow> [LogInfof ''shutting down server, draining connections''])"

definition error_part :: "string option \<Rightarrow> string option \<Rightarrow> event list" where
  "error_part logger err =
     (case (logger, err) of
        (Some l, Some e) \<Rightarrow> [LogErrorf (''could not shut down server gracefully: '' @ e)]
      | _ \<Rightarrow> [])"

definition full_trace :: "string option \<Rightarrow> int \<Rightarrow> string option \<Rightarrow> event list" where
  "full_trace logger waitTime err =
     info_part logger @ [ShutdownCalled waitTime, ShutdownReturned err]
       @ error_part logger err @ [Closed]"

fun trace_upto :: "string option \<Rightarrow> int \<Rightarrow> string option \<Rightarrow> pc \<Rightarrow> event list" where
  "trace_upto logger waitTime err NotifyTERM = []"
| "trace_upto logger waitTime err NotifyINT = []"
| "trace_upto logger waitTime err AwaitSignal = []"
| "trace_upto logger waitTime err LogDraining = []"
| "trace_upto logger waitTime err CallShutdown = info_part logger"
| "trace_upto logger waitTime err InShutdown = info_part logger @ [ShutdownCalled waitTime]"
| "trace_upto logger waitTime err (AfterShutdown e) =
     info_part logger @ [ShutdownCalled waitTime, ShutdownReturned err]"
| "trace_upto logger waitTime err CloseIdle =
     info_part logger @ [ShutdownCalled waitTime, ShutdownReturned err] @ error_part logger err"
| "trace_upto logger waitTime err Finished =
     info_part logger @ [ShutdownCalled waitTime, ShutdownReturned err] @ error_part logger err
       @ [Closed]"

definition shutdown_inv :: "string option \<Rightarrow> int \<Rightarrow> string option \<Rightarrow> shutdown_state \<Rightarrow> bool" where
  "shutdown_inv logger waitTime err s =
     (\<not> is_crashed (fate s)
      \<and> trace s = trace_upto logger waitTime err (pc s)
      \<and> result_is err (pc s)
      \<and> idleConnsClosed s = (pc s = Finished)
      \<and> received s = (if has_read (pc s) then take 1 (delivered s) else [])
      \<and> (if has_read (pc s) then delivered s \<noteq> [] else True)
      \<and> (if has_read (pc s) then True else gracefulStop s = take 1 (delivered s))
      \<and> (if pc s = NotifyTERM then subscribed s = [] \<and> delivered s = [] else True))"

section \<open>Properties of AddMiddlewares\<close>

lemma AddMiddlewares_append:
  "AddMiddlewares h (ms @ [m]) = m (AddMiddlewares h ms)"
  by (induction ms arbitrary: h) simp_all

lemma AddMiddlewares_foldr:
  "AddMiddlewares h ms = foldr (\<lambda>stage inner. stage inner) (rev ms) h"
  by (induction ms arbitrary: h) simp_all

lemma printlns_append: "printlns (xs @ ys) st = printlns ys (printlns xs st)"
  by (induction xs arbitrary: st) simp_all

lemma logs_printlns: "logs (printlns ss st) = logs st @ map Println ss"
  by (induction ss arbitrary: st) (simp_all add: println_def)

lemma and_then_assoc:
  "and_then (and_then res k) k' = and_then res (\<lambda>s. and_then (k s) k')"
  by (cases res) (auto simp: and_then_def split: outcome.splits)

lemma and_then_Returned: "and_then (Returned, s) k = k s"
  by (simp add: and_then_def)

lemma createMiddleware_apply:
  "createMiddleware logString h rw r st =
     and_then (h rw r (println logString st)) (\<lambda>st'. (Returned, println logString st'))"
  by (simp add: createMiddleware_def)

lemma AddMiddlewares_createMiddleware:
  "AddMiddlewares h (map createMiddleware names) rw r st =
     and_then (h rw r (printlns (rev names) st)) (\<lambda>st'. (Returned, printlns names st'))"
proof (induction names arbitrary: st rule: rev_induct)
  case Nil
  show ?case by (cases "h rw r st") (auto simp: and_then_def split: outcome.splits)
next
  case (snoc x xs)
  let ?inner = "AddMiddlewares h (map createMiddleware xs)"
  have "AddMiddlewares h (map createMiddleware (xs @ [x])) rw r st =
          createMiddleware x ?inner rw r st"
    by (simp only: map_append list.map AddMiddlewares_append)
  also have "\<dots> = and_then (?inner rw r (println x st))
                       (\<lambda>st'. (Returned, println x st'))"
    by (rule createMiddleware_apply)
  also have "\<dots> = and_then (and_then (h rw r (printlns (rev xs) (println x st)))
                                 (\<lambda>st'. (Returned, printlns xs st')))
                       (\<lambda>st'. (Returned, println x st'))"
    by (simp only: snoc.IH)
  also have "\<dots> = and_then (h rw r (printlns (rev (xs @ [x])) st))
                       (\<lambda>st'. (Returned, printlns (xs @ [x]) st'))"
    by (simp add: and_then_assoc and_then_Returned printlns_append)
  finally show ?case .
qed

text \<open>
  Claim C1. For every terminal handler \<open>h\<close> and stages \<open>[s\<^sub>1, ..., s\<^sub>n]\<close> the handler built by
  AddMiddlewares is \<open>s\<^sub>n (... (s\<^sub>1 h))\<close>. For logging stages registered as \<open>[a, b, c]\<close>
  one request first logs \<open>c, b, a\<close>, then runs the terminal handler exactly once, then logs
  \<open>a, b, c\<close>; with the handler of the order test the log reads
  \<open>c, b, a, the handler, a, b, c\<close>.
\<close>

theorem C1_composition_order:
  "AddMiddlewares h stages = foldr (\<lambda>stage inner. stage inner) (rev stages) h
   \<and> AddMiddlewares h [s1, s2, s3] = s3 (s2 (s1 h))
   \<and> AddMiddlewares h [createMiddleware a, createMiddleware b, createMiddleware c] rw r st =
       and_then (h rw r (println a (println b (println c st))))
         (\<lambda>st'. (Returned, println c (println b (println a st'))))
   \<and> logs (snd (AddMiddlewares the_handler
         [createMiddleware a, createMiddleware b, createMiddleware c] rw r st)) =
       logs st @ map Println [c, b, a, ''the handler'', a, b, c]"
proof -
  have seq: "AddMiddlewares g [createMiddleware a, createMiddleware b, createMiddleware c] rw r st =
       and_then (g rw r (println a (println b (println c st))))
         (\<lambda>st'. (Returned, println c (println b (println a st'))))" for g
    using AddMiddlewares_createMiddleware [of g "[a, b, c]" rw r st] by simp
  have "logs (snd (AddMiddlewares the_handler
         [createMiddleware a, createMiddleware b, createMiddleware c] rw r st)) =
       logs st @ map Println [c, b, a, ''the handler'', a, b, c]"
    unfolding seq by (simp add: the_handler_def and_then_def println_def)
  with seq [of h] show ?thesis
    by (simp add: AddMiddlewares_foldr)
qed

section \<open>The recorded status\<close>

lemma WriteHeader_heap_length:
  "WriteHeader w code st = (out, st') \<Longrightarrow> length (heap st') = length (heap st)"
  by (induction w arbitrary: st) (auto simp: server_WriteHeader_def split: if_splits option.splits)

lemma WriteHeader_keeps_code:
  "WriteHeader w code st = (out, st') \<Longrightarrow> a < length (heap st) \<Longrightarrow>
   statusCode (heap st ! a) = code \<Longrightarrow> statusCode (heap st' ! a) = code"
proof (induction w arbitrary: st)
  case Server
  then show ?case by (auto simp: server_WriteHeader_def split: if_splits option.splits)
next
  case (Info b inner)
  let ?st1 = "st\<lparr>heap := (heap st)[b := (heap st ! b)\<lparr>statusCode := code\<rparr>]\<rparr>"
  have "WriteHeader inner code ?st1 = (out, st')" using Info.prems(1) by simp
  moreover have "a < length (heap ?st1)" using Info.prems(2) by simp
  moreover have "statusCode (heap ?st1 ! a) = code"
    using Info.prems(2,3) by (cases "a = b") simp_all
  ultimately show ?case by (rule Info.IH)
next
  case (Delegator inner)
  then show ?case by auto
qed

lemma WriteHeader_Info_records:
  "WriteHeader (Info a inner) code st = (out, st') \<Longrightarrow> a < length (heap st) \<Longrightarrow>
   statusCode (heap st' ! a) = code"
  using WriteHeader_keeps_code [of inner code _ out st' a] by auto

lemma Write_heap: "Write w b st = (out, st') \<Longrightarrow> heap st' = heap st \<and> out = Returned"
  by (induction w arbitrary: st) (auto simp: server_Write_def Let_def)

lemma do_action_status:
  "do_action act (Info a inner) st = (Returned, st') \<Longrightarrow> a < length (heap st) \<Longrightarrow>
   length (heap st') = length (heap st) \<and>
   statusCode (heap st' ! a) = last_status (statusCode (heap st ! a)) [act]"
proof (cases act)
  case (CallWriteHeader c)
  assume "do_action act (Info a inner) st = (Returned, st')" "a < length (heap st)"
  with CallWriteHeader show ?thesis
    using WriteHeader_Info_records [of a inner c st Returned st']
      WriteHeader_heap_length [of "Info a inner" c st Returned st'] by simp
next
  case (CallWrite b)
  assume "do_action act (Info a inner) st = (Returned, st')" "a < length (heap st)"
  with CallWrite show ?thesis using Write_heap [of inner b st Returned st'] by simp
next
  case (CallWriteError e)
  assume "do_action act (Info a inner) st = (Returned, st')" "a < length (heap st)"
  with CallWriteError show ?thesis by (auto simp: WriteError_def)
next
  case (CallPanic v)
  assume "do_action act (Info a inner) st = (Returned, st')"
  with CallPanic show ?thesis by simp
qed

lemma last_status_Cons: "last_status code (act # acts) = last_status (last_status code [act]) acts"
  by (cases act) simp_all

lemma run_actions_status:
  "run_actions acts (Info a inner) r st = (Returned, st') \<Longrightarrow> a < length (heap st) \<Longrightarrow>
   length (heap st') = length (heap st) \<and>
   statusCode (heap st' ! a) = last_status (statusCode (heap st ! a)) acts"
proof (induction acts arbitrary: st)
  case Nil
  then show ?case by simp
next
  case (Cons act acts)
  from Cons.prems(1) obtain st1 where
    step: "do_action act (Info a inner) st = (Returned, st1)" and
    rest: "run_actions acts (Info a inner) r st1 = (Returned, st')"
    by (cases "do_action act (Info a inner) st")
       (auto simp: and_then_def split: outcome.splits)
  from do_action_status [OF step Cons.prems(2)]
  have len: "length (heap st1) = length (heap st)"
    and stat: "statusCode (heap st1 ! a) = last_status (statusCode (heap st ! a)) [act]"
    by simp_all
  from Cons.IH [OF rest] len Cons.prems(2)
  have "length (heap st') = length (heap st1) \<and>
        statusCode (heap st' ! a) = last_status (statusCode (heap st1 ! a)) acts"
    by simp
  with len stat show ?case
    using last_status_Cons [of "statusCode (heap st ! a)" act acts] by simp
qed


lemma last_status_no_WriteHeader: "\<not> calls_WriteHeader acts \<Longrightarrow> last_status code acts = code"
  by (induction code acts rule: last_status.induct) simp_all

lemma last_status_append:
  "last_status code (pre @ post) = last_status (last_status code pre) post"
  by (induction code pre rule: last_status.induct) simp_all

lemma last_status_last_call:
  "\<not> calls_WriteHeader post \<Longrightarrow> last_status d (pre @ CallWriteHeader code # post) = code"
  by (simp add: last_status_append last_status_no_WriteHeader)

lemma reported_status_log_processed:
  "reported_status (log_processed r a t st) = Some (FInt (statusCode (heap st ! a)))"
  by (simp add: reported_status_def log_processed_def Let_def split: option.splits)

lemma heap_log_processed: "heap (log_processed r a t st) = heap st"
  by (simp add: log_processed_def Let_def split: option.splits)

lemma Logger_returned:
  assumes "Logger h w r st = (Returned, st')"
  obtains a inner st1 st2 where
    "NewResponseWriter w st = ((a, inner), st1)"
    "h (Info a inner) r st1 = (Returned, st2)"
    "st' = log_processed r a (now st1) st2"
proof -
  obtain a inner st1 where new: "NewResponseWriter w st = ((a, inner), st1)"
    by (metis prod.exhaust)
  obtain out st2 where run: "h (Info a inner) r st1 = (out, st2)"
    by (metis prod.exhaust)
  from assms new run have "out = Returned" and "st' = log_processed r a (now st1) st2"
    by (auto simp: Logger_def and_then_def Let_def split: outcome.splits)
  with new run that show ?thesis by blast
qed

lemma NewResponseWriter_valid:
  assumes "valid_writer w st" and "NewResponseWriter w st = ((a, inner), st1)"
  shows "a < length (heap st1)"
  using assms by (cases w) (auto simp: NewResponseWriter_def)

lemma NewResponseWriter_fresh_status:
  assumes "\<not> is_info w" and "NewResponseWriter w st = ((a, inner), st1)"
  shows "statusCode (heap st1 ! a) = 200"
  using assms by (cases w) (auto simp: NewResponseWriter_def)

text \<open>
  Claim C10. When the handler returns without having called \<^verbatim>\<open>WriteHeader\<close>, the status
  recorded by the wrapper the Logger stage created is 200, and the status the stage
  reports is the recorded one; when the handler's last call of \<^verbatim>\<open>WriteHeader\<close> was with
  \<open>code\<close>, the recorded and reported status is \<open>code\<close>.
\<close>

theorem C10_logger_status:
  assumes valid: "valid_writer w st"
      and ret: "Logger (run_actions acts) w r st = (Returned, st')"
  shows "reported_status st' = Some (FInt (statusCode (heap st' ! wrapper_addr w st)))
       \<and> (\<not> is_info w \<and> \<not> calls_WriteHeader acts \<longrightarrow>
            statusCode (heap st' ! wrapper_addr w st) = 200)
       \<and> (acts = pre @ CallWriteHeader code # post \<and> \<not> calls_WriteHeader post \<longrightarrow>
            statusCode (heap st' ! wrapper_addr w st) = code)"
proof -
  from ret obtain a inner st1 st2 where
    new: "NewResponseWriter w st = ((a, inner), st1)" and
    run: "run_actions acts (Info a inner) r st1 = (Returned, st2)" and
    st': "st' = log_processed r a (now st1) st2"
    by (rule Logger_returned)
  have addr: "wrapper_addr w st = a"
    by (simp add: wrapper_addr_def new)
  have a: "a < length (heap st1)"
    using valid new by (rule NewResponseWriter_valid)
  from run_actions_status [OF run a]
  have rec: "statusCode (heap st2 ! a) = last_status (statusCode (heap st1 ! a)) acts"
    by simp
  have heap': "heap st' = heap st2"
    by (simp add: st' heap_log_processed)
  have "reported_status st' = Some (FInt (statusCode (heap st' ! wrapper_addr w st)))"
    by (simp add: addr heap') (simp add: st' reported_status_log_processed)
  moreover have "statusCode (heap st' ! wrapper_addr w st) = 200"
    if "\<not> is_info w" "\<not> calls_WriteHeader acts"
    using that rec NewResponseWriter_fresh_status [OF that(1) new]
    by (simp add: addr heap' last_status_no_WriteHeader)
  moreover have "statusCode (heap st' ! wrapper_addr w st) = code"
    if "acts = pre @ CallWriteHeader code # post" "\<not> calls_WriteHeader post"
    using that rec by (simp add: addr heap' last_status_last_call)
  ultimately show ?thesis by blast
qed

theorem C10_logger_status_witness:
  "reported_status (snd (Logger (run_actions [CallWrite ''ok'']) Server GET fresh_world))
     = Some (FInt 200)
   \<and> reported_status (snd (Logger (run_actions [CallWriteHeader 404, CallWrite ''gone''])
        Server GET fresh_world)) = Some (FInt 404)"
proof -
  let ?a1 = "[CallWrite ''ok'']" and ?a2 = "[CallWriteHeader 404, CallWrite ''gone'']"
  have v: "valid_writer Server fresh_world" by simp
  have r1: "Logger (run_actions ?a1) Server GET fresh_world =
              (Returned, snd (Logger (run_actions ?a1) Server GET fresh_world))"
    by (simp add: Logger_def NewResponseWriter_def and_then_def server_Write_def Let_def)
  have r2: "Logger (run_actions ?a2) Server GET fresh_world =
              (Returned, snd (Logger (run_actions ?a2) Server GET fresh_world))"
    by (simp add: Logger_def NewResponseWriter_def and_then_def server_Write_def
          server_WriteHeader_def fresh_world_def fresh_response_def Let_def)
  from C10_logger_status [OF v r1, of "[]" 0 "[]"]
       C10_logger_status [OF v r2, of "[]" 404 "[CallWrite ''gone'']"]
  show ?thesis by simp
qed

section \<open>Sharing one record per request\<close>

text \<open>
  Claim C9. \<^verbatim>\<open>NewResponseWriter\<close> applied to a writer that already is a
  \<^verbatim>\<open>*ResponseWriterWithInfo\<close> returns that very pointer and changes nothing: no record is
  allocated and neither the recorded status nor the recorded error is reset. Applying
  it to its own result is therefore the identity, a Logger stage given such a writer
  passes the same pointer on, and two nested Logger stages report from one record.
\<close>

theorem C9_NewResponseWriter_idempotent:
  "NewResponseWriter (Info a inner) st = ((a, inner), st)
   \<and> (case NewResponseWriter w st of
        ((a', inner'), st1) \<Rightarrow> NewResponseWriter (Info a' inner') st1 = ((a', inner'), st1))
   \<and> Logger h (Info a inner) r st =
        and_then (h (Info a inner) r st) (\<lambda>st2. (Returned, log_processed r a (now st) st2))
   \<and> Logger (Logger h) w r st =
        (case NewResponseWriter w st of
           ((a', inner'), st1) \<Rightarrow>
              and_then (h (Info a' inner') r st1)
                (\<lambda>st2. (Returned,
                   log_processed r a' (now st1) (log_processed r a' (now st1) st2))))"
proof -
  have same: "NewResponseWriter (Info b i) s = ((b, i), s)" for b i s
    by (simp add: NewResponseWriter_def)
  have inner: "Logger g (Info b i) r s =
        and_then (g (Info b i) r s) (\<lambda>st2. (Returned, log_processed r b (now s) st2))" for g b i s
    by (simp add: Logger_def same)
  have nested: "Logger (Logger h) w r st =
        (case NewResponseWriter w st of
           ((a', inner'), st1) \<Rightarrow>
              and_then (h (Info a' inner') r st1)
                (\<lambda>st2. (Returned,
                   log_processed r a' (now st1) (log_processed r a' (now st1) st2))))"
  proof (cases "NewResponseWriter w st")
    case (Pair p st1)
    obtain a' inner' where p: "p = (a', inner')" by (cases p)
    have "Logger (Logger h) w r st =
            and_then (Logger h (Info a' inner') r st1)
              (\<lambda>st2. (Returned, log_processed r a' (now st1) st2))"
      by (simp add: Logger_def [of "Logger h"] Pair p)
    then show ?thesis
      by (simp add: inner Pair p and_then_assoc and_then_Returned)
  qed
  show ?thesis
    using same [of a inner st] inner [of h a inner st] nested
    by (simp add: same split: prod.splits)
qed

section \<open>Fault isolation\<close>

text \<open>
  Claim C6. Whatever the inner handler does, the handler built by \<^verbatim>\<open>PanicRecovery\<close>
  returns normally, and so does every chain whose last registered (outermost) stage it
  is. When the inner handler panics with value \<open>v\<close>, the panic is logged as an error and
  nothing else changes: the response and the writers' records stay as the inner handler
  left them. When the inner handler returns, nothing is added.
\<close>

theorem C6_PanicRecovery:
  "fst (PanicRecovery h w r st) = Returned
   \<and> fst (AddMiddlewares h (stages @ [PanicRecovery]) w r st) = Returned
   \<and> resp (snd (PanicRecovery h w r st)) = resp (snd (h w r st))
   \<and> heap (snd (PanicRecovery h w r st)) = heap (snd (h w r st))
   \<and> (h w r st = (Panicked v, st') \<longrightarrow>
        PanicRecovery h w r st =
          (Returned, st'\<lparr>logs := logs st' @
             [LogLine ErrorLevel (''panic recovered: '' @ v) [] None]\<rparr>))
   \<and> (h w r st = (Returned, st') \<longrightarrow> PanicRecovery h w r st = (Returned, st'))"
proof -
  have ret: "fst (PanicRecovery g w r st) = Returned" for g
    by (cases "g w r st") (auto simp: PanicRecovery_def recover_def split: outcome.splits)
  have "resp (snd (PanicRecovery h w r st)) = resp (snd (h w r st))"
       "heap (snd (PanicRecovery h w r st)) = heap (snd (h w r st))"
    by (cases "h w r st"; auto simp: PanicRecovery_def recover_def split: outcome.splits)+
  moreover have "fst (AddMiddlewares h (stages @ [PanicRecovery]) w r st) = Returned"
    by (simp only: AddMiddlewares_append ret)
  ultimately show ?thesis
    using ret [of h] by (auto simp: PanicRecovery_def recover_def)
qed

theorem C6_PanicRecovery_witness:
  "AddMiddlewares (run_actions [CallWrite ''partial'', CallPanic ''boom''])
      [Logger, PanicRecovery] Server GET fresh_world =
     (Returned,
      fresh_world\<lparr>heap := [\<lparr>statusCode = 200, responseError = None\<rparr>],
        resp := \<lparr>status_sent = Some 200, headers = [], body = ''partial''\<rparr>,
        logs := [LogLine ErrorLevel ''panic recovered: boom'' [] None]\<rparr>)"
proof -
  let ?h = "Logger (run_actions [CallWrite ''partial'', CallPanic ''boom''])"
  let ?st' = "fresh_world\<lparr>heap := [\<lparr>statusCode = 200, responseError = None\<rparr>],
        resp := \<lparr>status_sent = Some 200, headers = [], body = ''partial''\<rparr>\<rparr>"
  have "?h Server GET fresh_world = (Panicked ''boom'', ?st')"
    by (simp add: Logger_def NewResponseWriter_def and_then_def server_Write_def
          fresh_world_def fresh_response_def Let_def)
  with C6_PanicRecovery [of ?h Server GET fresh_world "[]" "''boom''" ?st']
  show ?thesis by (simp add: fresh_world_def)
qed

section \<open>Admission by the rate limiter\<close>

lemma RateLimiter_constructs:
  "RateLimiter interval L B st =
     (RateLimiter_stage (length (limiters st)),
      st\<lparr>limiters := limiters st @
         [\<lparr>limit = Every interval, burst = B, tokens = of_int L, lastTime = now st\<rparr>]\<rparr>)"
  by (simp add: RateLimiter_def SetBurst_def NewLimiter_def advance_def Let_def
      split: Limit.splits)

lemma Allow_rejects_unchanged: "Allow lm t = (False, lm') \<Longrightarrow> lm' = lm"
  by (auto simp: Allow_def Let_def split: Limit.splits if_splits)

lemma http_Error_fresh:
  "resp st = fresh_response \<Longrightarrow>
   http_Error Server StatusText_TooManyRequests StatusTooManyRequests st =
     (Returned, st\<lparr>resp := \<lparr>status_sent = Some 429,
        headers = [(''X-Content-Type-Options'', ''nosniff''),
                   (''Content-Type'', ''text/plain; charset=utf-8'')],
        body = ''Too Many Requests'' @ [CHR 0x0A]\<rparr>\<rparr>)"
  by (simp add: http_Error_def set_header_def server_WriteHeader_def server_Write_def
      and_then_def fresh_response_def StatusText_TooManyRequests_def
      StatusTooManyRequests_def Let_def)

lemma http_Get_RateLimiter:
  "http_Get (RateLimiter_stage p empty_handler) st =
     (case Allow (limiters st ! p) (now st) of
        (ok, lm') \<Rightarrow>
          if ok then (Some 200, st\<lparr>resp := fresh_response, limiters := (limiters st)[p := lm']\<rparr>)
          else (Some 429, st\<lparr>resp := \<lparr>status_sent = Some 429,
                  headers = [(''X-Content-Type-Options'', ''nosniff''),
                             (''Content-Type'', ''text/plain; charset=utf-8'')],
                  body = ''Too Many Requests'' @ [CHR 0x0A]\<rparr>,
                  limiters := (limiters st)[p := lm']\<rparr>))"
proof (cases "Allow (limiters st ! p) (now st)")
  case (Pair ok lm')
  let ?st1 = "st\<lparr>resp := fresh_response, limiters := (limiters st)[p := lm']\<rparr>"
  have err: "http_Error Server StatusText_TooManyRequests StatusTooManyRequests ?st1 =
     (Returned, ?st1\<lparr>resp := \<lparr>status_sent = Some 429,
        headers = [(''X-Content-Type-Options'', ''nosniff''),
                   (''Content-Type'', ''text/plain; charset=utf-8'')],
        body = ''Too Many Requests'' @ [CHR 0x0A]\<rparr>\<rparr>)"
    by (rule http_Error_fresh) simp
  show ?thesis
  proof (cases ok)
    case True
    with Pair show ?thesis
      by (simp add: http_Get_def RateLimiter_stage_def status_received_def Let_def
          fresh_response_def empty_handler_def)
  next
    case False
    with Pair err show ?thesis
      by (simp add: http_Get_def RateLimiter_stage_def status_received_def Let_def)
  qed
qed


lemma Allow_same_time:
  assumes "int k \<le> B"
  shows "Allow \<lparr>limit = OnePer i, burst = B, tokens = of_nat k, lastTime = t\<rparr> t =
     (if 1 \<le> k
      then (True, \<lparr>limit = OnePer i, burst = B, tokens = of_nat (k - 1), lastTime = t\<rparr>)
      else (False, \<lparr>limit = OnePer i, burst = B, tokens = of_nat k, lastTime = t\<rparr>))"
proof -
  have "(of_int (int k) :: rat) \<le> of_int B"
    using assms by (simp only: of_int_le_iff)
  then have le: "(of_nat k :: rat) \<le> of_int B"
    by (simp only: of_int_of_nat_eq)
  then have adv: "advance \<lparr>limit = OnePer i, burst = B, tokens = of_nat k, lastTime = t\<rparr> t
                   = of_nat k"
    by (simp add: advance_def)
  show ?thesis
  proof (cases "1 \<le> k")
    case True
    then have e: "(of_nat k :: rat) - 1 = of_nat (k - 1)" by (simp add: of_nat_diff)
    from e True adv show ?thesis by (simp add: Allow_def Let_def)
  next
    case False
    then have z: "k = 0" by simp
    from z adv show ?thesis by (simp add: Allow_def Let_def)
  qed
qed



lemma http_Gets_Suc:
  "fst (http_Gets (Suc n) h st) = fst (http_Get h st) # fst (http_Gets n h (snd (http_Get h st)))"
  "snd (http_Gets (Suc n) h st) = snd (http_Gets n h (snd (http_Get h st)))"
  by (simp_all add: case_prod_unfold)

lemma http_Get_admitted:
  assumes "limiters st ! p = \<lparr>limit = OnePer i, burst = B, tokens = of_nat k, lastTime = now st\<rparr>"
      and "int k \<le> B" and "1 \<le> k"
  shows "http_Get (RateLimiter_stage p empty_handler) st =
           (Some 200, st\<lparr>resp := fresh_response, limiters := (limiters st)
              [p := \<lparr>limit = OnePer i, burst = B, tokens = of_nat (k - 1), lastTime = now st\<rparr>]\<rparr>)"
proof -
  have "Allow (limiters st ! p) (now st) =
     (True, \<lparr>limit = OnePer i, burst = B, tokens = of_nat (k - 1), lastTime = now st\<rparr>)"
    unfolding assms(1) Allow_same_time [OF assms(2)] using assms(3) by simp
  then show ?thesis
    unfolding http_Get_RateLimiter by simp
qed


lemma http_Get_rejected:
  assumes "limiters st ! p = \<lparr>limit = OnePer i, burst = B, tokens = 0, lastTime = now st\<rparr>"
      and "0 \<le> B"
  shows "http_Get (RateLimiter_stage p empty_handler) st =
           (Some 429, st\<lparr>resp := \<lparr>status_sent = Some 429,
                  headers = [(''X-Content-Type-Options'', ''nosniff''),
                             (''Content-Type'', ''text/plain; charset=utf-8'')],
                  body = ''Too Many Requests'' @ [CHR 0x0A]\<rparr>\<rparr>)"
proof -
  have "int 0 \<le> B" using assms(2) by simp
  from Allow_same_time [OF this, of i "now st"]
  have "Allow (limiters st ! p) (now st) = (False, limiters st ! p)"
    unfolding assms(1) by simp
  then show ?thesis
    unfolding http_Get_RateLimiter by simp
qed

lemma http_Gets_same_time:
  assumes "p < length (limiters st)"
      and "limiters st ! p = \<lparr>limit = OnePer i, burst = B, tokens = of_nat k, lastTime = now st\<rparr>"
      and "int k \<le> B"
  shows "fst (http_Gets n (RateLimiter_stage p empty_handler) st) =
            replicate (min n k) (Some 200) @ replicate (n - k) (Some 429)
          \<and> limiters (snd (http_Gets n (RateLimiter_stage p empty_handler) st)) =
              (limiters st)
                [p := \<lparr>limit = OnePer i, burst = B, tokens = of_nat (k - n), lastTime = now st\<rparr>]
          \<and> now (snd (http_Gets n (RateLimiter_stage p empty_handler) st)) = now st"
  using assms
proof (induction n arbitrary: st k)
  case 0
  have "(limiters st)[p := limiters st ! p] = limiters st" by (rule list_update_id)
  then show ?case using "0.prems"(2) by simp
next
  case (Suc n)
  let ?h = "RateLimiter_stage p empty_handler"
  show ?case
  proof (cases "1 \<le> k")
    case True
    define st1 where "st1 = snd (http_Get ?h st)"
    have get: "http_Get ?h st =
           (Some 200, st\<lparr>resp := fresh_response, limiters := (limiters st)
              [p := \<lparr>limit = OnePer i, burst = B, tokens = of_nat (k - 1), lastTime = now st\<rparr>]\<rparr>)"
      using Suc.prems(2,3) True by (rule http_Get_admitted)
    have c: "fst (http_Get ?h st) = Some 200" by (simp only: get fst_conv)
    have l1: "limiters st1 = (limiters st)
              [p := \<lparr>limit = OnePer i, burst = B, tokens = of_nat (k - 1), lastTime = now st\<rparr>]"
      and n1: "now st1 = now st"
      unfolding st1_def get by simp_all
    have f1: "p < length (limiters st1)" using Suc.prems(1) by (simp add: l1)
    have f2: "limiters st1 ! p =
        \<lparr>limit = OnePer i, burst = B, tokens = of_nat (k - 1), lastTime = now st1\<rparr>"
      using Suc.prems(1) by (simp add: l1 n1)
    have f3: "int (k - 1) \<le> B" using Suc.prems(3) by linarith
    note ih = Suc.IH [OF f1 f2 f3]
    have ar: "min (Suc n) k = Suc (min n (k - 1))" "Suc n - k = n - (k - 1)" "k - Suc n = k - 1 - n"
      using True by simp_all
    have codes: "fst (http_Gets (Suc n) ?h st) =
            replicate (min (Suc n) k) (Some 200) @ replicate (Suc n - k) (Some 429)"
      unfolding http_Gets_Suc c ar using ih by (simp add: st1_def)
    have lims: "limiters (snd (http_Gets (Suc n) ?h st)) = (limiters st)
                [p := \<lparr>limit = OnePer i, burst = B, tokens = of_nat (k - Suc n), lastTime = now st\<rparr>]"
      unfolding http_Gets_Suc ar using ih by (simp add: st1_def [symmetric] l1 n1)
    have nows: "now (snd (http_Gets (Suc n) ?h st)) = now st"
      unfolding http_Gets_Suc using ih by (simp add: st1_def [symmetric] n1)
    from codes lims nows show ?thesis by (intro conjI)
  next
    case False
    then have k: "k = 0" by simp
    define st1 where "st1 = snd (http_Get ?h st)"
    have B: "0 \<le> B" using Suc.prems(3) by simp
    have lm0: "limiters st ! p = \<lparr>limit = OnePer i, burst = B, tokens = 0, lastTime = now st\<rparr>"
      using Suc.prems(2) by (simp add: k)
    have get: "http_Get ?h st =
           (Some 429, st\<lparr>resp := \<lparr>status_sent = Some 429,
                  headers = [(''X-Content-Type-Options'', ''nosniff''),
                             (''Content-Type'', ''text/plain; charset=utf-8'')],
                  body = ''Too Many Requests'' @ [CHR 0x0A]\<rparr>\<rparr>)"
      using lm0 B by (rule http_Get_rejected)
    have c: "fst (http_Get ?h st) = Some 429" by (simp only: get fst_conv)
    have l1: "limiters st1 = limiters st" and n1: "now st1 = now st"
      unfolding st1_def get by simp_all
    have f1: "p < length (limiters st1)" using Suc.prems(1) by (simp add: l1)
    have f2: "limiters st1 ! p =
        \<lparr>limit = OnePer i, burst = B, tokens = of_nat 0, lastTime = now st1\<rparr>"
      by (simp add: l1 n1 lm0)
    have f3: "int 0 \<le> B" using B by simp
    note ih = Suc.IH [OF f1 f2 f3]
    have codes: "fst (http_Gets (Suc n) ?h st) =
            replicate (min (Suc n) k) (Some 200) @ replicate (Suc n - k) (Some 429)"
      unfolding http_Gets_Suc c k using ih by (simp add: st1_def)
    have lims: "limiters (snd (http_Gets (Suc n) ?h st)) = (limiters st)
                [p := \<lparr>limit = OnePer i, burst = B, tokens = of_nat (k - Suc n), lastTime = now st\<rparr>]"
      unfolding http_Gets_Suc k using ih by (simp add: st1_def [symmetric] l1 n1)
    have nows: "now (snd (http_Gets (Suc n) ?h st)) = now st"
      unfolding http_Gets_Suc using ih by (simp add: st1_def [symmetric] n1)
    from codes lims nows show ?thesis by (intro conjI)
  qed
qed


lemma http_Get_allowed:
  assumes "Allow (limiters st ! p) (now st) = (True, lm')"
  shows "http_Get (RateLimiter_stage p empty_handler) st =
           (Some 200, st\<lparr>resp := fresh_response, limiters := (limiters st)[p := lm']\<rparr>)"
  unfolding http_Get_RateLimiter using assms by simp

lemma Allow_first:
  assumes "1 \<le> B" and "B \<le> L"
  shows "Allow \<lparr>limit = OnePer i, burst = B, tokens = of_int L, lastTime = t0\<rparr> t =
           (True, \<lparr>limit = OnePer i, burst = B, tokens = of_nat (nat B - 1), lastTime = t\<rparr>)"
proof -
  have nonneg: "(0::rat) \<le> of_nat (t - t0) / of_nat i" by simp
  have "(of_int B :: rat) \<le> of_int L" using assms(2) by simp
  with nonneg have "(of_int B :: rat) \<le> of_int L + of_nat (t - t0) / of_nat i" by linarith
  then have adv: "advance \<lparr>limit = OnePer i, burst = B, tokens = of_int L, lastTime = t0\<rparr> t
                = of_int B"
    by (simp add: advance_def)
  have one: "(1::rat) \<le> of_int B" using assms(1) by simp
  have "int (nat B - 1) = B - 1" using assms(1) by simp
  then have "(of_int (int (nat B - 1)) :: rat) = of_int (B - 1)" by (simp only:)
  then have tok: "(of_int B :: rat) - 1 = of_nat (nat B - 1)" by simp
  from tok one adv show ?thesis by (simp add: Allow_def Let_def)
qed


lemma Allow_after_interval:
  assumes "1 \<le> B" and "0 < i" and "i \<le> d"
  shows "fst (Allow \<lparr>limit = OnePer i, burst = B, tokens = 0, lastTime = t0\<rparr> (t0 + d))"
proof -
  have "(of_nat i :: rat) \<le> of_nat d" using assms(3) by (simp only: of_nat_le_iff)
  moreover have "(0::rat) < of_nat i" using assms(2) by simp
  ultimately have "(1::rat) \<le> of_nat d / of_nat i" by (simp add: le_divide_eq_1_pos)
  moreover have "(1::rat) \<le> of_int B" using assms(1) by simp
  ultimately show ?thesis by (simp add: Allow_def advance_def Let_def)
qed

text \<open>
  Claim C3, as it holds: for a positive interval and \<open>1 \<le> burst \<le> limit\<close>, whatever the
  time \<open>d0\<close> between building the stage and the first request, \<open>burst + 1\<close> requests with
  no delay between them are answered by \<open>burst\<close> times 200 and then one 429, and a request
  issued at least one interval later is answered by 200.
\<close>

theorem C3_token_bucket_admission:
  assumes "0 < interval" and "1 \<le> B" and "B \<le> L" and "nat interval \<le> d"
  shows "rate_limit_run interval L B d0 (nat B + 1) d st =
           (replicate (nat B) (Some 200) @ [Some 429], Some 200)"
proof -
  define i where "i = nat interval"
  define p where "p = length (limiters st)"
  define h where "h = RateLimiter_stage p empty_handler"
  define lm0 where "lm0 = \<lparr>limit = OnePer i, burst = B, tokens = of_int L, lastTime = now st\<rparr>"
  define stA where "stA = sleep d0 (st\<lparr>limiters := limiters st @ [lm0]\<rparr>)"
  define lm1 where
    "lm1 = \<lparr>limit = OnePer i, burst = B, tokens = of_nat (nat B - 1), lastTime = now stA\<rparr>"
  define st1 where "st1 = stA\<lparr>resp := fresh_response, limiters := (limiters stA)[p := lm1]\<rparr>"
  define st2 where "st2 = snd (http_Gets (nat B) h st1)"
  have i: "0 < i" using assms(1) by (simp add: i_def)
  have ev: "Every interval = OnePer i" using assms(1) by (simp add: Every_def i_def)
  have run: "rate_limit_run interval L B d0 (nat B + 1) d st =
               (fst (http_Gets (Suc (nat B)) h stA), fst (http_Get h (sleep d (snd (http_Gets (Suc (nat B)) h stA)))))"
    by (simp add: rate_limit_run_def RateLimiter_constructs ev case_prod_unfold Let_def
        h_def p_def stA_def lm0_def)
  have limA: "limiters stA ! p = lm0" and lenA: "p < length (limiters stA)"
    by (simp_all add: stA_def sleep_def p_def)
  have "Allow (limiters stA ! p) (now stA) = (True, lm1)"
    unfolding limA lm0_def lm1_def using assms(2,3) by (rule Allow_first)
  then have get1: "http_Get h stA = (Some 200, st1)"
    unfolding h_def st1_def by (rule http_Get_allowed)
  have f1: "p < length (limiters st1)" using lenA by (simp add: st1_def)
  have f2: "limiters st1 ! p =
      \<lparr>limit = OnePer i, burst = B, tokens = of_nat (nat B - 1), lastTime = now st1\<rparr>"
    using lenA by (simp add: st1_def lm1_def)
  have f3: "int (nat B - 1) \<le> B" using assms(2) by simp
  note gets = http_Gets_same_time [OF f1 f2 f3, of "nat B", folded h_def st2_def]
  have nB: "0 < nat B" using assms(2) by simp
  have ar: "min (nat B) (nat B - Suc 0) = nat B - Suc 0" "nat B - (nat B - Suc 0) = Suc 0"
      "nat B - Suc 0 - nat B = 0"
    using nB by simp_all
  have codes2: "fst (http_Gets (nat B) h st1) = replicate (nat B - 1) (Some 200) @ [Some 429]"
    using gets by (simp add: ar)
  have "Some (200::int) # replicate (nat B - 1) (Some 200) = replicate (nat B) (Some 200)"
    using nB by (cases "nat B") simp_all
  then have codes: "fst (http_Gets (Suc (nat B)) h stA) = replicate (nat B) (Some 200) @ [Some 429]"
    by (simp only: http_Gets_Suc get1 fst_conv snd_conv codes2) simp
  have snd2: "snd (http_Gets (Suc (nat B)) h stA) = st2"
    by (simp only: http_Gets_Suc get1 snd_conv st2_def)
  have lim2: "limiters st2 ! p = \<lparr>limit = OnePer i, burst = B, tokens = 0, lastTime = now st1\<rparr>"
    using gets f1 by (simp add: ar st2_def)
  have now2: "now st2 = now st1" using gets by (simp add: st2_def)
  have "fst (Allow (limiters (sleep d st2) ! p) (now (sleep d st2)))"
    using Allow_after_interval [OF assms(2) i, of d "now st1"] assms(4)
    by (simp add: sleep_def lim2 now2 i_def)
  then obtain lm' where "Allow (limiters (sleep d st2) ! p) (now (sleep d st2)) = (True, lm')"
    by (cases "Allow (limiters (sleep d st2) ! p) (now (sleep d st2))") simp
  then have "fst (http_Get h (sleep d st2)) = Some 200"
    unfolding h_def by (simp only: http_Get_allowed fst_conv)
  with run codes snd2 show ?thesis by simp
qed

theorem C3_token_bucket_admission_witness:
  "rate_limit_run 10000000 2 2 0 3 10000000 fresh_world =
     ([Some 200, Some 200, Some 429], Some 200)"
proof -
  have l: "replicate (nat 2) (Some (200::int)) @ [Some 429] = [Some 200, Some 200, Some 429]"
    by (simp add: numeral_2_eq_2)
  have n: "nat 2 + 1 = (3::nat)" by simp
  have "rate_limit_run 10000000 2 2 0 (nat 2 + 1) 10000000 fresh_world =
          (replicate (nat 2) (Some 200) @ [Some 429], Some 200)"
    by (rule C3_token_bucket_admission) simp_all
  then show ?thesis unfolding l n .
qed


text \<open>
  With \<open>limit = 1\<close> and \<open>burst = 2\<close> the bucket that \<^verbatim>\<open>NewLimiter\<close> filled holds one token
  when \<^verbatim>\<open>SetBurst\<close> raises its capacity to two, so only the first of three immediate
  requests is admitted.
\<close>

theorem C3_counterexample:
  "rate_limit_run 10000000 1 2 0 3 10000000 fresh_world =
     ([Some 200, Some 429, Some 429], Some 200)
   \<and> rate_limit_run 10000000 1 2 0 3 10000000 fresh_world \<noteq>
     ([Some 200, Some 200, Some 429], Some 200)"
proof -
  have "rate_limit_run 10000000 1 2 0 3 10000000 fresh_world =
     ([Some 200, Some 429, Some 429], Some 200)"
    by (simp add: rate_limit_run_def RateLimiter_constructs Every_def fresh_world_def
        http_Get_RateLimiter Allow_def advance_def sleep_def Let_def numeral_3_eq_3)
  then show ?thesis by simp
qed


text \<open>
  The other two bounds are needed as well: an interval that is not positive gives an
  unlimited rate, which rejects nothing, and a burst of zero admits nothing, however
  long the wait.
\<close>

lemma rate_limit_degenerate_inputs:
  "rate_limit_run 0 2 2 0 3 10000000 fresh_world =
     ([Some 200, Some 200, Some 200], Some 200)"
  "rate_limit_run 10000000 0 0 0 1 10000000 fresh_world = ([Some 429], Some 429)"
  by (simp_all add: rate_limit_run_def RateLimiter_constructs Every_def fresh_world_def
      http_Get_RateLimiter Allow_def advance_def sleep_def Let_def numeral_3_eq_3)

lemma RateLimiter_stage_rejects:
  assumes "\<not> fst (Allow (limiters st ! p) (now st))"
  shows "RateLimiter_stage p h w r st =
           http_Error w StatusText_TooManyRequests StatusTooManyRequests st"
proof -
  obtain ok lm' where a: "Allow (limiters st ! p) (now st) = (ok, lm')"
    by (cases "Allow (limiters st ! p) (now st)")
  with assms have ok: "ok = False" by simp
  with a have "lm' = limiters st ! p" by (simp add: Allow_rejects_unchanged)
  then have "st\<lparr>limiters := (limiters st)[p := lm']\<rparr> = st" by simp
  with a ok show ?thesis by (simp add: RateLimiter_stage_def Let_def)
qed

lemma RateLimiter_stage_admits:
  assumes "fst (Allow (limiters st ! p) (now st))"
  shows "RateLimiter_stage p h w r st =
           h w r (st\<lparr>limiters := (limiters st)[p := snd (Allow (limiters st ! p) (now st))]\<rparr>)"
  using assms by (simp add: RateLimiter_stage_def Let_def case_prod_unfold)

text \<open>
  Claim C5. When \<^verbatim>\<open>Allow\<close> finds no token, the stage answers exactly as
  \<^verbatim>\<open>http.Error(w, "Too Many Requests", 429)\<close> does on the unchanged state, whatever the
  next handler is, so the next handler is not invoked and nothing but the response
  changes; on a response not yet begun that is status 429 with the plain-text body
  \<open>Too Many Requests\<close>. When a token is there, the stage is the next handler run after the
  token was taken.
\<close>

theorem C5_rate_limit_rejection:
  "(\<not> fst (Allow (limiters st ! p) (now st)) \<longrightarrow>
      RateLimiter_stage p h w r st = http_Error w ''Too Many Requests'' 429 st
      \<and> RateLimiter_stage p h w r st = RateLimiter_stage p h' w r st)
   \<and> (\<not> fst (Allow (limiters st ! p) (now st)) \<and> resp st = fresh_response \<longrightarrow>
      RateLimiter_stage p h Server r st =
        (Returned, st\<lparr>resp := \<lparr>status_sent = Some 429,
           headers = [(''X-Content-Type-Options'', ''nosniff''),
                      (''Content-Type'', ''text/plain; charset=utf-8'')],
           body = ''Too Many Requests'' @ [CHR 0x0A]\<rparr>\<rparr>))
   \<and> (fst (Allow (limiters st ! p) (now st)) \<longrightarrow>
      RateLimiter_stage p h w r st =
        h w r (st\<lparr>limiters := (limiters st)[p := snd (Allow (limiters st ! p) (now st))]\<rparr>))"
proof (intro conjI impI)
  assume rej: "\<not> fst (Allow (limiters st ! p) (now st))"
  show "RateLimiter_stage p h w r st = http_Error w ''Too Many Requests'' 429 st"
    using RateLimiter_stage_rejects [OF rej, of h w r]
    by (simp add: StatusText_TooManyRequests_def StatusTooManyRequests_def)
  show "RateLimiter_stage p h w r st = RateLimiter_stage p h' w r st"
    by (simp only: RateLimiter_stage_rejects [OF rej])
next
  assume "\<not> fst (Allow (limiters st ! p) (now st)) \<and> resp st = fresh_response"
  then have rej: "\<not> fst (Allow (limiters st ! p) (now st))" and fr: "resp st = fresh_response"
    by simp_all
  show "RateLimiter_stage p h Server r st =
        (Returned, st\<lparr>resp := \<lparr>status_sent = Some 429,
           headers = [(''X-Content-Type-Options'', ''nosniff''),
                      (''Content-Type'', ''text/plain; charset=utf-8'')],
           body = ''Too Many Requests'' @ [CHR 0x0A]\<rparr>\<rparr>)"
    by (simp only: RateLimiter_stage_rejects [OF rej] http_Error_fresh [OF fr])
next
  assume "fst (Allow (limiters st ! p) (now st))"
  then show "RateLimiter_stage p h w r st =
        h w r (st\<lparr>limiters := (limiters st)[p := snd (Allow (limiters st ! p) (now st))]\<rparr>)"
    by (rule RateLimiter_stage_admits)
qed

theorem C5_rate_limit_rejection_witness:
  "RateLimiter_stage 0 (run_actions [CallPanic ''the handler ran''])
      Server GET (snd (RateLimiter 10000000 0 0 fresh_world)) =
     (Returned, (snd (RateLimiter 10000000 0 0 fresh_world))
        \<lparr>resp := \<lparr>status_sent = Some 429,
           headers = [(''X-Content-Type-Options'', ''nosniff''),
                      (''Content-Type'', ''text/plain; charset=utf-8'')],
           body = ''Too Many Requests'' @ [CHR 0x0A]\<rparr>\<rparr>)
   \<and> RateLimiter_stage 0 (run_actions [CallPanic ''the handler ran''])
      Server GET (sleep 10000000 (snd (RateLimiter 10000000 1 1 fresh_world))) =
     (Panicked ''the handler ran'',
      sleep 10000000 (snd (RateLimiter 10000000 1 1 fresh_world))
        \<lparr>limiters := [\<lparr>limit = OnePer 10000000, burst = 1, tokens = 0, lastTime = 10000000\<rparr>]\<rparr>)"
proof -
  let ?h = "run_actions [CallPanic ''the handler ran'']"
  let ?st = "snd (RateLimiter 10000000 0 0 fresh_world)"
  let ?st' = "sleep 10000000 (snd (RateLimiter 10000000 1 1 fresh_world))"
  have rej: "\<not> fst (Allow (limiters ?st ! 0) (now ?st))"
    by (simp add: RateLimiter_constructs Every_def fresh_world_def Allow_def advance_def Let_def)
  have fr: "resp ?st = fresh_response"
    by (simp add: RateLimiter_constructs fresh_world_def)
  have adm: "fst (Allow (limiters ?st' ! 0) (now ?st'))"
    by (simp add: RateLimiter_constructs Every_def fresh_world_def Allow_def advance_def
        sleep_def Let_def)
  have lm: "snd (Allow (limiters ?st' ! 0) (now ?st')) =
        \<lparr>limit = OnePer 10000000, burst = 1, tokens = 0, lastTime = 10000000\<rparr>"
    by (simp add: RateLimiter_constructs Every_def fresh_world_def Allow_def advance_def
        sleep_def Let_def)
  have len: "limiters ?st' = [limiters ?st' ! 0]"
    by (simp add: RateLimiter_constructs fresh_world_def sleep_def)
  from C5_rate_limit_rejection [of ?st 0 ?h Server GET ?h] rej fr
  have one: "RateLimiter_stage 0 ?h Server GET ?st =
     (Returned, ?st\<lparr>resp := \<lparr>status_sent = Some 429,
           headers = [(''X-Content-Type-Options'', ''nosniff''),
                      (''Content-Type'', ''text/plain; charset=utf-8'')],
           body = ''Too Many Requests'' @ [CHR 0x0A]\<rparr>\<rparr>)"
    by blast
  have run: "?h Server GET s = (Panicked ''the handler ran'', s)" for s
    by (simp add: and_then_def)
  have upd: "(limiters ?st')[0 := snd (Allow (limiters ?st' ! 0) (now ?st'))] =
        [\<lparr>limit = OnePer 10000000, burst = 1, tokens = 0, lastTime = 10000000\<rparr>]"
    by (subst len) (simp only: lm list_update_code)
  from C5_rate_limit_rejection [of ?st' 0 ?h Server GET ?h] adm
  have "RateLimiter_stage 0 ?h Server GET ?st' =
          ?h Server GET (?st'\<lparr>limiters := (limiters ?st')[0 := snd (Allow (limiters ?st' ! 0) (now ?st'))]\<rparr>)"
    by blast
  then have two: "RateLimiter_stage 0 ?h Server GET ?st' =
     (Panicked ''the handler ran'',
      ?st'\<lparr>limiters := [\<lparr>limit = OnePer 10000000, burst = 1, tokens = 0, lastTime = 10000000\<rparr>]\<rparr>)"
    by (simp only: upd run)
  from one two show ?thesis by (intro conjI)
qed

section \<open>The shutdown goroutine\<close>

lemma inv_init: "shutdown_inv logger waitTime err GracefulShutdown"
  by (simp add: shutdown_inv_def GracefulShutdown_def)

lemma take1_snoc: "take (Suc 0) (xs @ [x]) = (if xs = [] then [x] else take (Suc 0) xs)"
  by (cases xs) simp_all

lemma inv_deliver:
  assumes "shutdown_inv logger waitTime err s"
  shows "shutdown_inv logger waitTime err (deliver sig s)"
proof (cases "sig \<in> set (subscribed s)")
  case False
  with assms show ?thesis by (simp add: shutdown_inv_def deliver_def)
next
  case True
  show ?thesis
  proof (cases "has_read (pc s)")
    case r: True
    with assms True show ?thesis
      by (cases "delivered s") (auto simp: shutdown_inv_def deliver_def)
  next
    case r: False
    with assms True show ?thesis
      by (cases "delivered s") (auto simp: shutdown_inv_def deliver_def)
  qed
qed


lemma inv_run:
  assumes "shutdown_inv logger waitTime err s"
  shows "shutdown_inv logger waitTime err (run logger waitTime s)"
proof (cases "pc s")
  case AwaitSignal
  with assms show ?thesis
    by (cases "delivered s")
       (auto simp: shutdown_inv_def run_def split: list.splits)
next
  case LogDraining
  with assms show ?thesis
    by (cases logger) (auto simp: shutdown_inv_def run_def Infof_def info_part_def)
next
  case (AfterShutdown e)
  with assms show ?thesis
    by (cases logger; cases e)
       (auto simp: shutdown_inv_def run_def Errorf_def error_part_def)
next
  case CloseIdle
  with assms show ?thesis
    by (auto simp: shutdown_inv_def run_def close_idle_def)
qed (use assms in \<open>auto simp: shutdown_inv_def run_def\<close>)

lemma inv_shutdown_returns:
  assumes "shutdown_inv logger waitTime err s"
  shows "shutdown_inv logger waitTime (if pc s = InShutdown then e else err)
           (shutdown_returns e s)"
  using assms by (cases "pc s") (auto simp: shutdown_inv_def shutdown_returns_def)

lemma inv_early:
  assumes "shutdown_inv logger waitTime err s" and "pc s = InShutdown"
  shows "shutdown_inv logger waitTime err' s"
  using assms by (auto simp: shutdown_inv_def)

lemma inv_move:
  assumes "shutdown_inv logger waitTime err s"
  shows "\<exists>err'. shutdown_inv logger waitTime err' (move logger waitTime m s)"
proof (cases "fate s")
  case Alive
  show ?thesis
  proof (cases m)
    case Run
    with Alive inv_run [OF assms] show ?thesis by (auto simp: move_def)
  next
    case (Deliver sig)
    with Alive inv_deliver [OF assms] show ?thesis by (auto simp: move_def)
  next
    case (ShutdownReturns e)
    show ?thesis
    proof (cases "pc s = InShutdown")
      case True
      from inv_early [OF assms True, of e]
      have "shutdown_inv logger waitTime e (shutdown_returns e s)"
        using inv_shutdown_returns [of logger waitTime e s e] True by simp
      with Alive ShutdownReturns show ?thesis by (auto simp: move_def)
    next
      case False
      with inv_shutdown_returns [OF assms, of e]
      have "shutdown_inv logger waitTime err (shutdown_returns e s)" by simp
      with Alive ShutdownReturns show ?thesis by (auto simp: move_def)
    qed
  qed
next
  case (Killed sig)
  with assms show ?thesis by (auto simp: move_def)
next
  case (Crashed x)
  with assms show ?thesis by (auto simp: move_def)
qed

lemma inv_exec:
  assumes "shutdown_inv logger waitTime err s"
  shows "\<exists>err'. shutdown_inv logger waitTime err' (exec logger waitTime ms s)"
  using assms
proof (induction ms arbitrary: s err)
  case Nil
  then show ?case by auto
next
  case (Cons m ms)
  from inv_move [OF Cons.prems] obtain err' where
    "shutdown_inv logger waitTime err' (move logger waitTime m s)" ..
  from Cons.IH [OF this] show ?case by simp
qed

lemma inv_reachable:
  "\<exists>err. shutdown_inv logger waitTime err (exec logger waitTime ms GracefulShutdown)"
  using inv_exec [OF inv_init] .


lemma full_trace_Finished: "full_trace logger waitTime err = trace_upto logger waitTime err Finished"
  by (simp add: full_trace_def)

lemma shutdown_calls_append: "shutdown_calls (xs @ ys) = shutdown_calls xs + shutdown_calls ys"
  by (induction xs rule: shutdown_calls.induct) simp_all

lemma occurrences_append: "occurrences e (xs @ ys) = occurrences e xs + occurrences e ys"
  by (induction xs) simp_all

lemma counts_info_part: "shutdown_calls (info_part logger) = 0" "occurrences Closed (info_part logger) = 0"
  by (cases logger; simp add: info_part_def)+

lemma counts_error_part:
  "shutdown_calls (error_part logger err) = 0" "occurrences Closed (error_part logger err) = 0"
  by (cases logger; cases err; simp add: error_part_def)+

lemma shutdown_calls_trace_upto:
  "shutdown_calls (trace_upto logger waitTime err p) \<le> 1"
  "shutdown_calls (trace_upto logger waitTime err Finished) = 1"
  by (cases p; simp add: shutdown_calls_append counts_info_part counts_error_part)+

lemma closed_trace_upto:
  "occurrences Closed (trace_upto logger waitTime err p) \<le> 1"
  "occurrences Closed (trace_upto logger waitTime err Finished) = 1"
  by (cases p; simp add: occurrences_append counts_info_part counts_error_part)+

lemma pair_step:
  assumes inv: "shutdown_inv logger waitTime err s"
      and alive: "fate s = Alive" and sig: "delivered s \<noteq> []"
  shows "pc (move logger waitTime (ShutdownReturns result) (move logger waitTime Run s)) =
           next_pc result (pc s)
       \<and> fate (move logger waitTime (ShutdownReturns result) (move logger waitTime Run s)) = Alive
       \<and> delivered (move logger waitTime (ShutdownReturns result) (move logger waitTime Run s)) =
           delivered s"
proof (cases "pc s")
  case AwaitSignal
  with inv alive sig show ?thesis
    by (cases "delivered s")
       (simp_all add: shutdown_inv_def move_def run_def shutdown_returns_def)
next
  case LogDraining
  with alive show ?thesis
    by (cases logger) (simp_all add: move_def run_def shutdown_returns_def Infof_def)
next
  case (AfterShutdown e)
  with alive show ?thesis
    by (cases logger; cases e)
       (simp_all add: move_def run_def shutdown_returns_def Errorf_def)
next
  case CloseIdle
  with inv alive show ?thesis
    by (simp add: shutdown_inv_def move_def run_def shutdown_returns_def close_idle_def)
next
  case NotifyTERM
  with inv sig show ?thesis by (simp add: shutdown_inv_def)
qed (use alive in \<open>simp_all add: move_def run_def shutdown_returns_def\<close>)


lemma pairs_progress:
  assumes "shutdown_inv logger waitTime err s" and "fate s = Alive" and "delivered s \<noteq> []"
  shows "\<exists>err'. shutdown_inv logger waitTime err'
            (exec logger waitTime (concat (replicate n [Run, ShutdownReturns result])) s)
       \<and> pc (exec logger waitTime (concat (replicate n [Run, ShutdownReturns result])) s) =
           (next_pc result ^^ n) (pc s)
       \<and> fate (exec logger waitTime (concat (replicate n [Run, ShutdownReturns result])) s) = Alive"
  using assms
proof (induction n arbitrary: s err)
  case 0
  then show ?case by auto
next
  case (Suc n)
  let ?s1 = "move logger waitTime (ShutdownReturns result) (move logger waitTime Run s)"
  from inv_move [OF Suc.prems(1)] obtain e1 where
    "shutdown_inv logger waitTime e1 (move logger waitTime Run s)" ..
  from inv_move [OF this] obtain e2 where inv1: "shutdown_inv logger waitTime e2 ?s1" ..
  from pair_step [OF Suc.prems]
  have pc1: "pc ?s1 = next_pc result (pc s)" and alive1: "fate ?s1 = Alive"
    and sig1: "delivered ?s1 \<noteq> []"
    using Suc.prems(3) by simp_all
  from Suc.IH [OF inv1 alive1 sig1]
  show ?case by (simp add: pc1 funpow_swap1)
qed

lemma next_pc_6:
  "p \<noteq> NotifyTERM \<Longrightarrow> (next_pc result ^^ 6) p = Finished"
  by (cases p) (simp_all add: eval_nat_numeral)

lemma shutdown_completes:
  assumes inv: "shutdown_inv logger waitTime err s"
      and alive: "fate s = Alive" and sig: "delivered s \<noteq> []"
  shows "pc (exec logger waitTime (run_to_completion result) s) = Finished
       \<and> idleConnsClosed (exec logger waitTime (run_to_completion result) s)
       \<and> fate (exec logger waitTime (run_to_completion result) s) = Alive"
proof -
  from inv sig have "pc s \<noteq> NotifyTERM" by (auto simp: shutdown_inv_def)
  then have six: "(next_pc result ^^ 6) (pc s) = Finished" by (rule next_pc_6)
  from pairs_progress [OF assms, of 6 result] obtain err' where
    "shutdown_inv logger waitTime err' (exec logger waitTime (run_to_completion result) s)"
    "pc (exec logger waitTime (run_to_completion result) s) = Finished"
    "fate (exec logger waitTime (run_to_completion result) s) = Alive"
    unfolding run_to_completion_def six by blast
  then show ?thesis by (auto simp: shutdown_inv_def)
qed

text \<open>
  Claim C2. In every execution, however many signals arrive and whenever: Shutdown is
  called at most once, the completion channel is closed at most once and never a second
  time (no close of a closed channel, nor any other crash), and the goroutine reads at
  most one value from its channel, the first signal that arrived. When the goroutine has
  finished, Shutdown was called exactly once and the channel closed exactly once; and
  once a signal has arrived, the goroutine does finish when it is let run and Shutdown
  returns.
\<close>

theorem C2_idempotent_shutdown:
  assumes "s = exec logger waitTime schedule GracefulShutdown"
  shows "shutdown_calls (trace s) \<le> 1
       \<and> occurrences Closed (trace s) \<le> 1
       \<and> \<not> is_crashed (fate s)
       \<and> length (received s) \<le> 1
       \<and> received s = take (length (received s)) (delivered s)
       \<and> (pc s = Finished \<longrightarrow>
            shutdown_calls (trace s) = 1 \<and> occurrences Closed (trace s) = 1
            \<and> idleConnsClosed s \<and> received s = take 1 (delivered s) \<and> delivered s \<noteq> [])
       \<and> (fate s = Alive \<and> delivered s \<noteq> [] \<longrightarrow>
            pc (exec logger waitTime (run_to_completion result) s) = Finished
            \<and> shutdown_calls (trace (exec logger waitTime (run_to_completion result) s)) = 1
            \<and> occurrences Closed (trace (exec logger waitTime (run_to_completion result) s)) = 1)"
proof -
  from inv_reachable [of logger waitTime schedule] assms
  obtain err where inv: "shutdown_inv logger waitTime err s" by auto
  then have tr: "trace s = trace_upto logger waitTime err (pc s)"
    and fate: "\<not> is_crashed (fate s)"
    and closed: "idleConnsClosed s = (pc s = Finished)"
    and rcv: "received s = (if has_read (pc s) then take 1 (delivered s) else [])"
    and ne: "has_read (pc s) \<Longrightarrow> delivered s \<noteq> []"
    by (auto simp: shutdown_inv_def split: if_splits)
  have len: "length (received s) \<le> 1" by (simp add: rcv)
  have first: "received s = take (length (received s)) (delivered s)"
    by (cases "delivered s") (simp_all add: rcv)
  have fin: "shutdown_calls (trace s) = 1 \<and> occurrences Closed (trace s) = 1
            \<and> idleConnsClosed s \<and> received s = take 1 (delivered s) \<and> delivered s \<noteq> []"
    if "pc s = Finished"
    using that ne by (simp add: tr closed rcv shutdown_calls_trace_upto closed_trace_upto
        del: trace_upto.simps)
  have c1: "shutdown_calls (trace s) \<le> 1"
    unfolding tr by (rule shutdown_calls_trace_upto)
  have c2: "occurrences Closed (trace s) \<le> 1"
    unfolding tr by (rule closed_trace_upto)
  have live: "pc (exec logger waitTime (run_to_completion result) s) = Finished
            \<and> shutdown_calls (trace (exec logger waitTime (run_to_completion result) s)) = 1
            \<and> occurrences Closed (trace (exec logger waitTime (run_to_completion result) s)) = 1"
    if "fate s = Alive" "delivered s \<noteq> []"
  proof -
    let ?s' = "exec logger waitTime (run_to_completion result) s"
    from shutdown_completes [OF inv that] have at_end: "pc ?s' = Finished" by simp
    from inv_exec [OF inv] obtain err' where "shutdown_inv logger waitTime err' ?s'" ..
    then have "trace ?s' = trace_upto logger waitTime err' Finished"
      by (simp add: shutdown_inv_def at_end)
    with at_end show ?thesis
      by (simp add: shutdown_calls_trace_upto closed_trace_upto del: trace_upto.simps)
  qed
  from c1 c2 fate len first fin live show ?thesis by blast
qed


theorem C2_idempotent_shutdown_witness:
  "pc (exec (Some ''logrus'') 5000000000
        [Run, Run, Deliver SIGINT, Deliver SIGTERM, Run, Run, Deliver SIGINT, Run,
         ShutdownReturns None, Deliver SIGINT, Run, Run] GracefulShutdown) = Finished
   \<and> delivered (exec (Some ''logrus'') 5000000000
        [Run, Run, Deliver SIGINT, Deliver SIGTERM, Run, Run, Deliver SIGINT, Run,
         ShutdownReturns None, Deliver SIGINT, Run, Run] GracefulShutdown) =
       [SIGINT, SIGTERM, SIGINT, SIGINT]
   \<and> received (exec (Some ''logrus'') 5000000000
        [Run, Run, Deliver SIGINT, Deliver SIGTERM, Run, Run, Deliver SIGINT, Run,
         ShutdownReturns None, Deliver SIGINT, Run, Run] GracefulShutdown) = [SIGINT]
   \<and> shutdown_calls (trace (exec (Some ''logrus'') 5000000000
        [Run, Run, Deliver SIGINT, Deliver SIGTERM, Run, Run, Deliver SIGINT, Run,
         ShutdownReturns None, Deliver SIGINT, Run, Run] GracefulShutdown)) = 1
   \<and> occurrences Closed (trace (exec (Some ''logrus'') 5000000000
        [Run, Run, Deliver SIGINT, Deliver SIGTERM, Run, Run, Deliver SIGINT, Run,
         ShutdownReturns None, Deliver SIGINT, Run, Run] GracefulShutdown)) = 1"
proof -
  let ?s = "exec (Some ''logrus'') 5000000000
        [Run, Run, Deliver SIGINT, Deliver SIGTERM, Run, Run, Deliver SIGINT, Run,
         ShutdownReturns None, Deliver SIGINT, Run, Run] GracefulShutdown"
  have fin: "pc ?s = Finished"
    by (simp add: move_def run_def deliver_def shutdown_returns_def GracefulShutdown_def
        Infof_def close_idle_def)
  have del: "delivered ?s = [SIGINT, SIGTERM, SIGINT, SIGINT]"
    by (simp add: move_def run_def deliver_def shutdown_returns_def GracefulShutdown_def
        Infof_def close_idle_def)
  from C2_idempotent_shutdown [OF refl, of "Some ''logrus''" 5000000000
        "[Run, Run, Deliver SIGINT, Deliver SIGTERM, Run, Run, Deliver SIGINT, Run,
         ShutdownReturns None, Deliver SIGINT, Run, Run]"] fin del
  show ?thesis by simp
qed

lemma without_logs_append: "without_logs (xs @ ys) = without_logs xs @ without_logs ys"
  by (induction xs) simp_all

lemma nil_logger_move:
  "move None waitTime m (s\<lparr>trace := without_logs (trace s)\<rparr>) =
     (move (Some l) waitTime m s)\<lparr>trace := without_logs (trace (move (Some l) waitTime m s))\<rparr>"
proof (cases "fate s")
  case Alive
  show ?thesis
  proof (cases m)
    case Run
    with Alive show ?thesis
      by (cases "pc s")
         (auto simp: move_def run_def Infof_def Errorf_def close_idle_def without_logs_append
               split: list.splits option.splits)
  next
    case (Deliver sig)
    with Alive show ?thesis by (simp add: move_def deliver_def)
  next
    case (ShutdownReturns e)
    with Alive show ?thesis
      by (cases "pc s") (simp_all add: move_def shutdown_returns_def without_logs_append)
  qed
qed (simp_all add: move_def)

lemma nil_logger_exec:
  "exec None waitTime ms (s\<lparr>trace := without_logs (trace s)\<rparr>) =
     (exec (Some l) waitTime ms s)\<lparr>trace := without_logs (trace (exec (Some l) waitTime ms s))\<rparr>"
proof (induction ms arbitrary: s)
  case Nil
  show ?case by simp
next
  case (Cons m ms)
  show ?case by (simp only: exec.simps nil_logger_move [where l = l] Cons.IH)
qed

lemma without_logs_no_logs: "filter is_log (without_logs es) = []"
  by (induction es) simp_all

text \<open>
  Claim C7. With a nil logger (the \<^verbatim>\<open>nil\<close> interface value) every execution is, step for
  step, the execution with a logger, with the log lines left out of the calls made: same
  program counter, same channels, same Shutdown call and close. No log call is made and
  the process does not crash, for every schedule and every wait time.
\<close>

theorem C7_nil_logger_safe:
  "exec None waitTime schedule GracefulShutdown =
     (exec (Some l) waitTime schedule GracefulShutdown)
       \<lparr>trace := without_logs (trace (exec (Some l) waitTime schedule GracefulShutdown))\<rparr>
   \<and> pc (exec None waitTime schedule GracefulShutdown) =
       pc (exec (Some l) waitTime schedule GracefulShutdown)
   \<and> idleConnsClosed (exec None waitTime schedule GracefulShutdown) =
       idleConnsClosed (exec (Some l) waitTime schedule GracefulShutdown)
   \<and> filter is_log (trace (exec None waitTime schedule GracefulShutdown)) = []
   \<and> \<not> is_crashed (fate (exec None waitTime schedule GracefulShutdown))"
proof -
  have "GracefulShutdown\<lparr>trace := without_logs (trace GracefulShutdown)\<rparr> = GracefulShutdown"
    by (simp add: GracefulShutdown_def)
  with nil_logger_exec [of waitTime schedule GracefulShutdown l]
  have eq: "exec None waitTime schedule GracefulShutdown =
     (exec (Some l) waitTime schedule GracefulShutdown)
       \<lparr>trace := without_logs (trace (exec (Some l) waitTime schedule GracefulShutdown))\<rparr>"
    by simp
  from inv_reachable [of None waitTime schedule]
  have safe: "\<not> is_crashed (fate (exec None waitTime schedule GracefulShutdown))"
    by (auto simp: shutdown_inv_def)
  have pcs: "pc (exec None waitTime schedule GracefulShutdown) =
       pc (exec (Some l) waitTime schedule GracefulShutdown)"
    by (subst eq) simp
  have cl: "idleConnsClosed (exec None waitTime schedule GracefulShutdown) =
       idleConnsClosed (exec (Some l) waitTime schedule GracefulShutdown)"
    by (subst eq) simp
  have nl: "filter is_log (trace (exec None waitTime schedule GracefulShutdown)) = []"
    by (subst eq) (simp add: without_logs_no_logs)
  from eq safe pcs cl nl show ?thesis by (intro conjI)
qed


lemma trace_upto_prefix:
  "take (length (trace_upto logger waitTime err p)) (full_trace logger waitTime err) =
     trace_upto logger waitTime err p"
  by (cases p) (simp_all add: full_trace_def)

lemma finish_from_InShutdown:
  assumes "shutdown_inv logger waitTime err0 s" and "pc s = InShutdown" and "fate s = Alive"
  shows "exec logger waitTime [ShutdownReturns err, Run, Run] s =
           s\<lparr>pc := Finished, idleConnsClosed := True, trace := full_trace logger waitTime err\<rparr>"
  using assms
  by (cases logger; cases err)
     (auto simp: shutdown_inv_def move_def shutdown_returns_def run_def Errorf_def
        close_idle_def full_trace_def info_part_def error_part_def)

lemma Closed_not_in_parts:
  "Closed \<notin> set (info_part logger)" "Closed \<notin> set (error_part logger err)"
  by (cases logger; cases err; simp add: info_part_def error_part_def)+

lemma takeWhile_full_trace:
  "takeWhile (\<lambda>e. e \<noteq> Closed) (trace_upto logger waitTime err Finished) =
     trace_upto logger waitTime err CloseIdle"
  by (cases logger; cases err) (simp_all add: info_part_def error_part_def)

lemma Closed_in_trace_upto:
  "Closed \<in> set (trace_upto logger waitTime err p) \<Longrightarrow> p = Finished"
  by (cases p) (simp_all add: Closed_not_in_parts)

text \<open>
  Claim C4. In every execution the calls made are an initial part of: drain-start line,
  Shutdown called, Shutdown returned, error line, close. So the channel is closed at most
  once, and when it is closed a return of Shutdown precedes the close. An error returned
  by Shutdown is logged when there is a logger and crashes nothing. Whatever Shutdown
  returns, two more steps of the goroutine after the return close the channel; and from
  any moment after a signal arrived, letting the goroutine run and Shutdown return closes
  it.
\<close>

theorem C4_completion_after_shutdown:
  assumes "s = exec logger waitTime schedule GracefulShutdown"
  shows "(\<exists>err. take (length (trace s)) (full_trace logger waitTime err) = trace s)
       \<and> \<not> is_crashed (fate s)
       \<and> occurrences Closed (trace s) \<le> 1
       \<and> (idleConnsClosed s \<longrightarrow> (\<exists>err. trace s = full_trace logger waitTime err))
       \<and> (Closed \<in> set (trace s) \<longrightarrow>
            (\<exists>err. ShutdownReturned err \<in> set (takeWhile (\<lambda>e. e \<noteq> Closed) (trace s))))
       \<and> (pc s = Finished \<and> ShutdownReturned (Some e) \<in> set (trace s) \<and> logger = Some l \<longrightarrow>
            LogErrorf (''could not shut down server gracefully: '' @ e) \<in> set (trace s))
       \<and> (pc s = InShutdown \<and> fate s = Alive \<longrightarrow>
            exec logger waitTime [ShutdownReturns result, Run, Run] s =
              s\<lparr>pc := Finished, idleConnsClosed := True,
                trace := full_trace logger waitTime result\<rparr>)
       \<and> (fate s = Alive \<and> delivered s \<noteq> [] \<longrightarrow>
            idleConnsClosed (exec logger waitTime (run_to_completion result) s)
            \<and> fate (exec logger waitTime (run_to_completion result) s) = Alive)"
proof -
  from inv_reachable [of logger waitTime schedule] assms
  obtain err where inv: "shutdown_inv logger waitTime err s" by auto
  then have tr: "trace s = trace_upto logger waitTime err (pc s)"
    and fate: "\<not> is_crashed (fate s)"
    and closed: "idleConnsClosed s = (pc s = Finished)"
    by (auto simp: shutdown_inv_def)
  have pre: "\<exists>err. take (length (trace s)) (full_trace logger waitTime err) = trace s"
    unfolding tr using trace_upto_prefix by blast
  have once: "occurrences Closed (trace s) \<le> 1"
    unfolding tr by (rule closed_trace_upto)
  have full: "\<exists>err. trace s = full_trace logger waitTime err" if "idleConnsClosed s"
    using that closed tr full_trace_Finished by auto
  have order: "\<exists>err. ShutdownReturned err \<in> set (takeWhile (\<lambda>e. e \<noteq> Closed) (trace s))"
    if "Closed \<in> set (trace s)"
  proof -
    from that have "pc s = Finished" unfolding tr by (rule Closed_in_trace_upto)
    then have "takeWhile (\<lambda>e. e \<noteq> Closed) (trace s) = trace_upto logger waitTime err CloseIdle"
      by (simp only: tr takeWhile_full_trace)
    then show ?thesis by auto
  qed
  have logged: "LogErrorf (''could not shut down server gracefully: '' @ e) \<in> set (trace s)"
    if "pc s = Finished" "ShutdownReturned (Some e) \<in> set (trace s)" "logger = Some l"
    using that by (cases err) (auto simp: tr info_part_def error_part_def)
  have live: "exec logger waitTime [ShutdownReturns result, Run, Run] s =
              s\<lparr>pc := Finished, idleConnsClosed := True,
                trace := full_trace logger waitTime result\<rparr>"
    if "pc s = InShutdown" "fate s = Alive"
    using inv that by (rule finish_from_InShutdown)
  have fires: "idleConnsClosed (exec logger waitTime (run_to_completion result) s)
            \<and> fate (exec logger waitTime (run_to_completion result) s) = Alive"
    if "fate s = Alive" "delivered s \<noteq> []"
    using shutdown_completes [OF inv that] by simp
  from pre fate once full order logged live fires show ?thesis by blast
qed


theorem C4_completion_after_shutdown_witness:
  "trace (exec (Some ''logrus'') 5000000000
            [ShutdownReturns (Some ''context deadline exceeded''), Run, Run]
            (exec (Some ''logrus'') 5000000000
               [Run, Run, Deliver SIGTERM, Run, Run, Run] GracefulShutdown)) =
     [LogInfof ''shutting down server, draining connections'',
      ShutdownCalled 5000000000,
      ShutdownReturned (Some ''context deadline exceeded''),
      LogErrorf ''could not shut down server gracefully: context deadline exceeded'',
      Closed]
   \<and> idleConnsClosed (exec (Some ''logrus'') 5000000000
            [ShutdownReturns (Some ''context deadline exceeded''), Run, Run]
            (exec (Some ''logrus'') 5000000000
               [Run, Run, Deliver SIGTERM, Run, Run, Run] GracefulShutdown))
   \<and> \<not> idleConnsClosed (exec (Some ''logrus'') 5000000000
               [Run, Run, Deliver SIGTERM, Run, Run, Run] GracefulShutdown)"
proof -
  let ?s = "exec (Some ''logrus'') 5000000000
               [Run, Run, Deliver SIGTERM, Run, Run, Run] GracefulShutdown"
  have at: "pc ?s = InShutdown" "fate ?s = Alive" "\<not> idleConnsClosed ?s"
    by (simp_all add: move_def run_def deliver_def GracefulShutdown_def Infof_def)
  from C4_completion_after_shutdown [OF refl, of "Some ''logrus''" 5000000000
         "[Run, Run, Deliver SIGTERM, Run, Run, Run]" "''x''" "''l''"
         "Some ''context deadline exceeded''"] at
  have "exec (Some ''logrus'') 5000000000
            [ShutdownReturns (Some ''context deadline exceeded''), Run, Run] ?s =
          ?s\<lparr>pc := Finished, idleConnsClosed := True,
             trace := full_trace (Some ''logrus'') 5000000000 (Some ''context deadline exceeded'')\<rparr>"
    by blast
  then show ?thesis
    using at(3) by (simp add: full_trace_def info_part_def error_part_def)
qed

section \<open>Registering the metrics once\<close>

lemma Prometheus_after_first:
  "metricsRegisterOnce st \<Longrightarrow> Prometheus st = (Inr (Prometheus_stage nil_collectors), st)"
  by (simp add: Prometheus_def)

lemma Prometheus_times_after_first:
  "metricsRegisterOnce st \<Longrightarrow>
   Prometheus_times n st = (Inr (replicate n (Prometheus_stage nil_collectors)), st)"
  by (induction n) (simp_all add: Prometheus_after_first)

lemma Prometheus_first:
  assumes "\<not> metricsRegisterOnce st"
      and "set (registry st) \<inter> {''in_flight_requests'', ''http_requests_total'',
             ''request_duration_seconds'', ''response_size_bytes''} = {}"
  shows "Prometheus st =
     (Inr (Prometheus_stage
             \<lparr>inFlightGauge = Some ''in_flight_requests'',
                counter = Some ''http_requests_total'',
                duration = Some ''request_duration_seconds'',
                responseSize = Some ''response_size_bytes''\<rparr>),
      st\<lparr>metricsRegisterOnce := True,
         registry := registry st @ [''in_flight_requests'', ''http_requests_total'',
             ''request_duration_seconds'', ''response_size_bytes'']\<rparr>)"
  using assms by (simp add: Prometheus_def promauto_New_def and_then_def)

lemma Prometheus_registers_once:
  assumes "\<not> metricsRegisterOnce st"
      and "set (registry st) \<inter> {''in_flight_requests'', ''http_requests_total'',
             ''request_duration_seconds'', ''response_size_bytes''} = {}"
  shows "Prometheus_times (Suc n) st =
     (Inr (Prometheus_stage
             \<lparr>inFlightGauge = Some ''in_flight_requests'',
                counter = Some ''http_requests_total'',
                duration = Some ''request_duration_seconds'',
                responseSize = Some ''response_size_bytes''\<rparr>
           # replicate n (Prometheus_stage nil_collectors)),
      st\<lparr>metricsRegisterOnce := True,
         registry := registry st @ [''in_flight_requests'', ''http_requests_total'',
             ''request_duration_seconds'', ''response_size_bytes'']\<rparr>)"
  by (simp add: Prometheus_first [OF assms] Prometheus_times_after_first)

lemma Prometheus_stage_nil:
  "Prometheus_stage nil_collectors h w r st = (Panicked ''nil pointer dereference'', st)"
  by (simp add: Prometheus_stage_def nil_collectors_def InstrumentHandlerResponseSize_def)

text \<open>
  Claim C8. However often the constructor is called in a fresh process, the four
  collectors are registered once and no call panics. The stage returned by the first call
  serves requests. The collectors are local variables of each call, assigned only inside
  the once-guarded function, so every later call returns a stage whose collectors are all
  \<^verbatim>\<open>nil\<close>: that stage panics on each request, before the next handler is invoked.
\<close>

theorem C8_later_stages_panic:
  "snd (Prometheus_times (Suc n) fresh_world) =
     fresh_world\<lparr>metricsRegisterOnce := True,
       registry := [''in_flight_requests'', ''http_requests_total'',
                    ''request_duration_seconds'', ''response_size_bytes'']\<rparr>
   \<and> fst (serve_with (fst (Prometheus_times 2 fresh_world)) 0 empty_handler
            (snd (Prometheus_times 2 fresh_world))) = Returned
   \<and> serve_with (fst (Prometheus_times 2 fresh_world)) 1 h
         (snd (Prometheus_times 2 fresh_world)) =
       (Panicked ''nil pointer dereference'', snd (Prometheus_times 2 fresh_world))
   \<and> Prometheus_stage nil_collectors h w r st = (Panicked ''nil pointer dereference'', st)"
proof -
  have fresh: "\<not> metricsRegisterOnce fresh_world"
    "set (registry fresh_world) \<inter> {''in_flight_requests'', ''http_requests_total'',
             ''request_duration_seconds'', ''response_size_bytes''} = {}"
    by (simp_all add: fresh_world_def)
  note times = Prometheus_registers_once [OF fresh]
  have two: "2 = Suc (Suc 0)" by simp
  have a: "snd (Prometheus_times (Suc n) fresh_world) =
     fresh_world\<lparr>metricsRegisterOnce := True,
       registry := [''in_flight_requests'', ''http_requests_total'',
                    ''request_duration_seconds'', ''response_size_bytes'']\<rparr>"
    by (simp only: times snd_conv) (simp add: fresh_world_def)
  have b: "fst (serve_with (fst (Prometheus_times 2 fresh_world)) 0 empty_handler
            (snd (Prometheus_times 2 fresh_world))) = Returned"
    unfolding two times
    by (simp add: serve_with_def Prometheus_stage_def InstrumentHandlerResponseSize_def
        InstrumentHandlerInFlight_def InstrumentHandlerDuration_def observe_def
        NewResponseWriter_def and_then_def empty_handler_def fresh_world_def Let_def)
  have c: "serve_with (fst (Prometheus_times 2 fresh_world)) 1 h
         (snd (Prometheus_times 2 fresh_world)) =
       (Panicked ''nil pointer dereference'', snd (Prometheus_times 2 fresh_world))"
    unfolding two times by (simp add: serve_with_def Prometheus_stage_nil)
  from a b c Prometheus_stage_nil show ?thesis by (intro conjI)
qed

end
